theory Spec2Isabelle
  imports Main
begin

section \<open>JavaScript values\<close>

text \<open>
  The values the library handles.  Objects carry the address at which they were
  allocated, so that reference identity (\<open>===\<close> on objects) can be told apart from
  structural equality.  \<open>Obj\<close> is a plain object (what lodash's \<open>isPlainObject\<close>
  accepts), \<open>Exotic\<close> any other object (an array, a class instance, a date).  The
  field list holds the own enumerable properties in the order \<open>Object.keys\<close> lists
  them; what a value inherits from a prototype is given by the runtime, a parameter of
  the functions that read a property under an arbitrary key.  Numbers are integers:
  floating point and \<open>NaN\<close> are not modelled.  A function value is the identity of a
  function and holds no property; what the function does is given by an environment.
\<close>

datatype val =
    Undefined
  | Null
  | Bool bool
  | Num int
  | Str string
  | Fun nat
  | Obj nat "(string \<times> val) list"
  | Exotic nat "(string \<times> val) list"

datatype error = Error string | TypeError string

fun typeof :: "val \<Rightarrow> string" where
  "typeof Undefined = ''undefined''"
| "typeof Null = ''object''"
| "typeof (Bool b) = ''boolean''"
| "typeof (Num n) = ''number''"
| "typeof (Str s) = ''string''"
| "typeof (Fun f) = ''function''"
| "typeof (Obj a fs) = ''object''"
| "typeof (Exotic a fs) = ''object''"

fun isPlainObject :: "val \<Rightarrow> bool" where
  "isPlainObject (Obj a fs) = True"
| "isPlainObject v = False"

text \<open>\<open>===\<close>: objects are compared by address, everything else by value.\<close>

fun strict_eq :: "val \<Rightarrow> val \<Rightarrow> bool" where
  "strict_eq (Obj a fs) (Obj b gs) = (a = b)"
| "strict_eq (Exotic a fs) (Exotic b gs) = (a = b)"
| "strict_eq x y = (x = y)"

definition lookup :: "(string \<times> val) list \<Rightarrow> string \<Rightarrow> val" where
  "lookup fs k = (case map_of fs k of None \<Rightarrow> Undefined | Some v \<Rightarrow> v)"

text \<open>
  \<open>v.type\<close>, the only property the store and the reducers of the examples read: no
  built-in prototype has a member \<open>type\<close>, so that the own properties decide.  Reading
  a property of \<open>undefined\<close> or \<open>null\<close> throws a TypeError.
\<close>

fun get_prop :: "val \<Rightarrow> string \<Rightarrow> error + val" where
  "get_prop Undefined k = Inl (TypeError ''Cannot read property of undefined'')"
| "get_prop Null k = Inl (TypeError ''Cannot read property of null'')"
| "get_prop (Obj a fs) k = Inr (lookup fs k)"
| "get_prop (Exotic a fs) k = Inr (lookup fs k)"
| "get_prop v k = Inr Undefined"

text \<open>\<open>o[k] = v\<close> on the field list: an existing key keeps its place, a new key is appended.\<close>

fun set_prop :: "(string \<times> val) list \<Rightarrow> string \<Rightarrow> val \<Rightarrow> (string \<times> val) list" where
  "set_prop [] k v = [(k, v)]"
| "set_prop ((k', v') # fs) k v = (if k' = k then (k, v) # fs else (k', v') # set_prop fs k v)"

definition ActionTypes_INIT :: string where
  "ActionTypes_INIT = ''@@redux/INIT''"

text \<open>The object literal \<open>{ type: ActionTypes.INIT }\<close>, allocated at address \<open>a\<close>.\<close>

definition INIT_action :: "nat \<Rightarrow> val" where
  "INIT_action a = Obj a [(''type'', Str ActionTypes_INIT)]"

section \<open>The store: createStore\<close>

subsection \<open>State held by the closure\<close>

text \<open>
  The variables \<open>createStore\<close> closes over, together with the part of the heap they
  refer to.  \<open>currentListeners\<close> and \<open>nextListeners\<close> are references to arrays:
  \<open>arrays\<close> maps an address to the array stored there and \<open>fresh\<close> is the next
  unused address.  Every call of \<open>subscribe\<close> creates an \<open>unsubscribe\<close> closure with
  its own \<open>listener\<close> and \<open>isSubscribed\<close>; \<open>closures\<close> holds them, and a closure is
  named by its position.  \<open>trace\<close> is a ghost variable: it records every call of a
  function value made by the store (the function, its arguments and the value of
  \<open>isDispatching\<close> at the moment of the call).
\<close>

record world =
  currentReducer :: val
  currentState :: val
  currentListeners :: nat
  nextListeners :: nat
  isDispatching :: bool
  arrays :: "nat \<Rightarrow> val list"
  fresh :: nat
  closures :: "(val \<times> bool) list"
  trace :: "(val \<times> val list \<times> bool) list"

subsection \<open>Callbacks\<close>

text \<open>
  Reducers and listeners are functions supplied by the caller.  What such a function
  can do to the store is call the store's methods, so its body is a tree of those calls:
  each node is one call (of \<open>getState\<close>, \<open>dispatch\<close>, \<open>subscribe\<close>, an \<open>unsubscribe\<close>
  closure or \<open>replaceReducer\<close>) and the continuation receives what the call returned or
  threw (a callback may catch an exception and go on).  An environment gives the body
  of each function value for given arguments.  The observable of the store, a wrapper
  around \<open>subscribe\<close> and \<open>getState\<close>, is not modelled.
\<close>

datatype prog =
    Return val
  | Throw error
  | GetState "val \<Rightarrow> prog"
  | Dispatch val "error + val \<Rightarrow> prog"
  | Subscribe val "error + nat \<Rightarrow> prog"
  | Unsubscribe nat prog
  | ReplaceReducer val "error + val \<Rightarrow> prog"

type_synonym env = "nat \<Rightarrow> val list \<Rightarrow> prog"

type_synonym 'a result = "((error + 'a) \<times> world) option"

subsection \<open>getState, subscribe, unsubscribe\<close>

definition ensureCanMutateNextListeners :: "world \<Rightarrow> world" where
  "ensureCanMutateNextListeners s =
     (if nextListeners s = currentListeners s
      then s\<lparr>nextListeners := fresh s,
             arrays := (arrays s)(fresh s := arrays s (currentListeners s)),
             fresh := Suc (fresh s)\<rparr>
      else s)"

definition getState :: "world \<Rightarrow> val" where
  "getState s = currentState s"

text \<open>\<open>xs.push(v)\<close> on the array at address \<open>a\<close>.\<close>

definition push :: "nat \<Rightarrow> val \<Rightarrow> world \<Rightarrow> world" where
  "push a v s = s\<lparr>arrays := (arrays s)(a := arrays s a @ [v])\<rparr>"

text \<open>\<open>xs.indexOf(v)\<close>: the first position holding a value \<open>===\<close> to \<open>v\<close>, or \<open>-1\<close>.\<close>

fun indexOf :: "val list \<Rightarrow> val \<Rightarrow> int" where
  "indexOf [] v = -1"
| "indexOf (x # xs) v =
     (if strict_eq x v then 0
      else (let i = indexOf xs v in if i < 0 then -1 else i + 1))"

text \<open>
  \<open>xs.splice(index, 1)\<close>: a negative index counts from the end (and is clamped at 0),
  an index beyond the end removes nothing.
\<close>

definition splice1 :: "int \<Rightarrow> 'a list \<Rightarrow> 'a list" where
  "splice1 index xs =
     (let len = int (length xs);
          start = (if index < 0 then max (len + index) 0 else min index len)
      in take (nat start) xs @ drop (Suc (nat start)) xs)"

text \<open>
  \<open>subscribe\<close> returns the position of the new \<open>unsubscribe\<close> closure.
\<close>

definition subscribe :: "val \<Rightarrow> world \<Rightarrow> (error + nat) \<times> world" where
  "subscribe listener s =
     (if typeof listener \<noteq> ''function''
      then (Inl (Error ''Expected listener to be a function.''), s)
      else
        let s1 = s\<lparr>closures := closures s @ [(listener, True)]\<rparr>;
            s2 = ensureCanMutateNextListeners s1;
            s3 = push (nextListeners s2) listener s2
        in (Inr (length (closures s)), s3))"

text \<open>
  Calling the \<open>unsubscribe\<close> closure at position \<open>u\<close>.  A position that names no
  closure stands for a call of something that is not a function.
\<close>

definition unsubscribe :: "nat \<Rightarrow> world \<Rightarrow> (error + val) \<times> world" where
  "unsubscribe u s =
     (if length (closures s) \<le> u
      then (Inl (TypeError ''unsubscribe is not a function''), s)
      else
        let (listener, isSubscribed) = closures s ! u in
        if \<not> isSubscribed then (Inr Undefined, s)
        else
          let s1 = s\<lparr>closures := (closures s)[u := (listener, False)]\<rparr>;
              s2 = ensureCanMutateNextListeners s1;
              index = indexOf (arrays s2 (nextListeners s2)) listener
          in (Inr Undefined,
              s2\<lparr>arrays := (arrays s2)(nextListeners s2 :=
                     splice1 index (arrays s2 (nextListeners s2)))\<rparr>))"

subsection \<open>dispatch\<close>

definition err_plain_object :: error where
  "err_plain_object =
     Error ''Actions must be plain objects. Use custom middleware for async actions.''"

definition err_undefined_type :: error where
  "err_undefined_type =
     Error (''Actions may not have an undefined '' @ [CHR 0x22] @ ''type'' @ [CHR 0x22]
            @ '' property. Have you misspelled a constant?'')"

definition err_reducers_dispatch :: error where
  "err_reducers_dispatch = Error ''Reducers may not dispatch actions.''"

definition err_not_a_function :: error where
  "err_not_a_function = TypeError ''not a function''"

text \<open>
  A listener may dispatch, and the reducer or a listener of that dispatch may call the
  store again, for ever.  The execution of a callback's body therefore takes fuel, and
  \<open>None\<close> is the result of a run that needs more.  \<open>call\<close>, the notification loop and
  \<open>dispatch\<close> are written over a \<open>runner\<close>, the function that executes the body of a
  callback; \<open>exec\<close> below ties the knot.
\<close>

type_synonym runner = "prog \<Rightarrow> world \<Rightarrow> val result"

text \<open>Calling a value: only a function can be called.  The call is recorded.\<close>

definition call :: "runner \<Rightarrow> env \<Rightarrow> val \<Rightarrow> val list \<Rightarrow> world \<Rightarrow> val result" where
  "call run env v args s =
     (case v of
        Fun f \<Rightarrow> run (env f args) (s\<lparr>trace := trace s @ [(v, args, isDispatching s)]\<rparr>)
      | _ \<Rightarrow> Some (Inl err_not_a_function, s))"

text \<open>
  \<open>for (let i = 0; i < listeners.length; i++) { const listener = listeners[i]; listener() }\<close>
  where \<open>listeners\<close> is a reference: the length and the element are read from the heap
  at every round.  The first argument bounds the number of rounds.
\<close>

primrec notify :: "nat \<Rightarrow> runner \<Rightarrow> env \<Rightarrow> nat \<Rightarrow> nat \<Rightarrow> world \<Rightarrow> val result" where
  "notify 0 run env listeners i s =
     (if i < length (arrays s listeners) then None else Some (Inr Undefined, s))"
| "notify (Suc m) run env listeners i s =
     (if i < length (arrays s listeners)
      then (case call run env (arrays s listeners ! i) [] s of
              None \<Rightarrow> None
            | Some (Inl e, s') \<Rightarrow> Some (Inl e, s')
            | Some (Inr v, s') \<Rightarrow> notify m run env listeners (Suc i) s')
      else Some (Inr Undefined, s))"

text \<open>
  \<open>dispatch\<close>.  The three checks come first, in the order of the source.  The
  \<open>try\<close> block sets the guard and calls the reducer on the state read before the call;
  \<open>finally\<close> clears the guard whether the reducer returned or threw.  Then
  \<open>listeners = currentListeners = nextListeners\<close> and the loop, whose bound is the
  first argument.
\<close>

definition dispatch :: "nat \<Rightarrow> runner \<Rightarrow> env \<Rightarrow> val \<Rightarrow> world \<Rightarrow> val result" where
  "dispatch m run env action s =
     (if \<not> isPlainObject action then Some (Inl err_plain_object, s)
      else case get_prop action ''type'' of
        Inl e \<Rightarrow> Some (Inl e, s)
      | Inr t \<Rightarrow>
          if typeof t = ''undefined'' then Some (Inl err_undefined_type, s)
          else if isDispatching s then Some (Inl err_reducers_dispatch, s)
          else
            (case call run env (currentReducer s) [currentState s, action]
                    (s\<lparr>isDispatching := True\<rparr>) of
               None \<Rightarrow> None
             | Some (Inl e, s1) \<Rightarrow> Some (Inl e, s1\<lparr>isDispatching := False\<rparr>)
             | Some (Inr v, s1) \<Rightarrow>
                 (let s2 = s1\<lparr>currentState := v, isDispatching := False\<rparr>;
                      s3 = s2\<lparr>currentListeners := nextListeners s2\<rparr>
                  in case notify m run env (currentListeners s3) 0 s3 of
                       None \<Rightarrow> None
                     | Some (Inl e, s4) \<Rightarrow> Some (Inl e, s4)
                     | Some (Inr u, s4) \<Rightarrow> Some (Inr action, s4))))"

definition err_nextReducer :: error where
  "err_nextReducer = Error ''Expected the nextReducer to be a function.''"

text \<open>
  \<open>replaceReducer\<close>.  The action \<open>{ type: ActionTypes.INIT }\<close> is allocated at the next
  unused address.
\<close>

definition replaceReducer :: "nat \<Rightarrow> runner \<Rightarrow> env \<Rightarrow> val \<Rightarrow> world \<Rightarrow> val result" where
  "replaceReducer m run env nextReducer s =
     (if typeof nextReducer \<noteq> ''function'' then Some (Inl err_nextReducer, s)
      else
        let s1 = s\<lparr>currentReducer := nextReducer\<rparr>;
            s2 = s1\<lparr>fresh := Suc (fresh s1)\<rparr>
        in case dispatch m run env (INIT_action (fresh s1)) s2 of
             None \<Rightarrow> None
           | Some (Inl e, s') \<Rightarrow> Some (Inl e, s')
           | Some (Inr a, s') \<Rightarrow> Some (Inr Undefined, s'))"

text \<open>Executing the body of a callback with \<open>n\<close> units of fuel.\<close>

primrec exec :: "nat \<Rightarrow> env \<Rightarrow> prog \<Rightarrow> world \<Rightarrow> val result" where
  "exec 0 env p s = None"
| "exec (Suc n) env p s =
     (case p of
        Return v \<Rightarrow> Some (Inr v, s)
      | Throw e \<Rightarrow> Some (Inl e, s)
      | GetState k \<Rightarrow> exec n env (k (getState s)) s
      | Dispatch a k \<Rightarrow>
          (case dispatch n (exec n env) env a s of
             None \<Rightarrow> None
           | Some (r, s') \<Rightarrow> exec n env (k r) s')
      | Subscribe l k \<Rightarrow> (case subscribe l s of (r, s') \<Rightarrow> exec n env (k r) s')
      | Unsubscribe u p' \<Rightarrow>
          (case unsubscribe u s of
             (Inl e, s') \<Rightarrow> Some (Inl e, s')
           | (Inr v, s') \<Rightarrow> exec n env p' s')
      | ReplaceReducer nextReducer k \<Rightarrow>
          (case replaceReducer n (exec n env) env nextReducer s of
             None \<Rightarrow> None
           | Some (r, s') \<Rightarrow> exec n env (k r) s'))"

text \<open>The store's \<open>dispatch\<close> as a caller outside any callback sees it.\<close>

definition store_dispatch :: "nat \<Rightarrow> env \<Rightarrow> val \<Rightarrow> world \<Rightarrow> val result" where
  "store_dispatch n env action s = dispatch n (exec n env) env action s"

subsection \<open>createStore\<close>

definition err_enhancer :: error where
  "err_enhancer = Error ''Expected the enhancer to be a function.''"

definition err_reducer :: error where
  "err_reducer = Error ''Expected the reducer to be a function.''"

text \<open>
  What \<open>createStore\<close> returns: the store, that is the state its methods share, or,
  with an enhancer, whatever \<open>enhancer(createStore)(reducer, preloadedState)\<close> returns.
  The enhancer is the caller's function and is not run here.
\<close>

datatype created =
    Store world
  | Delegated val val val

text \<open>
  \<open>h\<close> is the first unused address of the heap: the array \<open>[]\<close> is allocated there and
  the action \<open>{ type: ActionTypes.INIT }\<close> after it.
\<close>

definition createStore ::
    "nat \<Rightarrow> env \<Rightarrow> nat \<Rightarrow> val \<Rightarrow> val \<Rightarrow> val \<Rightarrow> ((error + created)) option" where
  "createStore n env h reducer preloadedState0 enhancer0 =
     (let (preloadedState, enhancer) =
            (if typeof preloadedState0 = ''function'' \<and> typeof enhancer0 = ''undefined''
             then (Undefined, preloadedState0) else (preloadedState0, enhancer0))
      in
      if typeof enhancer \<noteq> ''undefined'' then
        (if typeof enhancer \<noteq> ''function'' then Some (Inl err_enhancer)
         else Some (Inr (Delegated enhancer reducer preloadedState)))
      else if typeof reducer \<noteq> ''function'' then Some (Inl err_reducer)
      else
        let s = \<lparr>currentReducer = reducer, currentState = preloadedState,
                 currentListeners = h, nextListeners = h, isDispatching = False,
                 arrays = (\<lambda>a. []), fresh = Suc (Suc h), closures = [], trace = []\<rparr>
        in case store_dispatch n env (INIT_action (Suc h)) s of
             None \<Rightarrow> None
           | Some (Inl e, s') \<Rightarrow> Some (Inl e)
           | Some (Inr a, s') \<Rightarrow> Some (Inr (Store s')))"


subsection \<open>Properties of the store used in the statements below\<close>

text \<open>How often a listener occurs in the list the next dispatch will take its snapshot of.\<close>

definition registered :: "val \<Rightarrow> world \<Rightarrow> nat" where
  "registered l s = count_list (arrays s (nextListeners s)) l"

text \<open>
  The array at address \<open>X\<close> is allocated and is not the one \<open>subscribe\<close> and
  \<open>unsubscribe\<close> write to: whenever \<open>nextListeners\<close> refers to it, \<open>currentListeners\<close>
  does too, so that \<open>ensureCanMutateNextListeners\<close> copies before any write.
\<close>

definition frozen :: "nat \<Rightarrow> world \<Rightarrow> bool" where
  "frozen X s \<longleftrightarrow>
     X < fresh s \<and> currentListeners s < fresh s \<and> nextListeners s < fresh s \<and>
     (nextListeners s = X \<longrightarrow> currentListeners s = X)"

definition preserves :: "world \<Rightarrow> world \<Rightarrow> bool" where
  "preserves s s' \<longleftrightarrow> (\<forall>X. frozen X s \<longrightarrow> frozen X s' \<and> arrays s' X = arrays s X)"

text \<open>
  From \<open>s\<close> to \<open>s'\<close> the flag \<open>isDispatching\<close> is restored, calls have only been added to
  the trace, none if the flag was set, and each added call was made with the flag set
  exactly if it has arguments (the reducer is called with two, a listener with none).
\<close>

definition calls_ok :: "world \<Rightarrow> world \<Rightarrow> bool" where
  "calls_ok s s' \<longleftrightarrow>
     isDispatching s' = isDispatching s \<and>
     (\<exists>new. trace s' = trace s @ new \<and> (isDispatching s \<longrightarrow> new = []) \<and>
        (\<forall>(f, args, g) \<in> set new. g = (args \<noteq> [])))"

definition keeps :: "(world \<Rightarrow> world \<Rightarrow> bool) \<Rightarrow> runner \<Rightarrow> bool" where
  "keeps Q run \<longleftrightarrow> (\<forall>p s r s'. run p s = Some (r, s') \<longrightarrow> Q s s')"

text \<open>
  The \<open>unsubscribe\<close> closures and the list of the next snapshot agree: every listener
  occurs in the list at least as often as it has closures that are still subscribed,
  and the closures hold functions.  \<open>createStore\<close> establishes this and every method
  keeps it (\<open>stays\<close>).
\<close>

definition listed :: "world \<Rightarrow> bool" where
  "listed s \<longleftrightarrow>
     (\<forall>l. count_list (closures s) (l, True) \<le> count_list (arrays s (nextListeners s)) l) \<and>
     (\<forall>c \<in> set (closures s). typeof (fst c) = ''function'')"

definition stays :: "world \<Rightarrow> world \<Rightarrow> bool" where
  "stays s s' \<longleftrightarrow> (listed s \<longrightarrow> listed s')"

text \<open>
  What \<open>createStore\<close> establishes and every method keeps: the two list references are
  allocated and the reducer is a function.
\<close>

definition well_formed :: "world \<Rightarrow> bool" where
  "well_formed s \<longleftrightarrow>
     currentListeners s < fresh s \<and> nextListeners s < fresh s \<and>
     typeof (currentReducer s) = ''function''"

definition callable :: "world \<Rightarrow> world \<Rightarrow> bool" where
  "callable s s' \<longleftrightarrow> (typeof (currentReducer s) = ''function'' \<longrightarrow> typeof (currentReducer s') = ''function'')"

text \<open>
  The specification's wording of the notification: invoke every listener of the
  snapshot, a fixed list, in order and without arguments; an exception ends it.
\<close>

fun invoke_each :: "nat \<Rightarrow> runner \<Rightarrow> env \<Rightarrow> val list \<Rightarrow> world \<Rightarrow> val result" where
  "invoke_each m run env [] s = Some (Inr Undefined, s)"
| "invoke_each 0 run env (l # ls) s = None"
| "invoke_each (Suc m) run env (l # ls) s =
     (case call run env l [] s of
        None \<Rightarrow> None
      | Some (Inl e, s') \<Rightarrow> Some (Inl e, s')
      | Some (Inr v, s') \<Rightarrow> invoke_each m run env ls s')"

subsection \<open>The counter of the specification's scenario\<close>

text \<open>The \<open>i\<close>-th argument of a call; a missing argument is \<open>undefined\<close>.\<close>

definition arg :: "val list \<Rightarrow> nat \<Rightarrow> val" where
  "arg args i = (if i < length args then args ! i else Undefined)"

text \<open>
  \<open>s + 1\<close>.  For an object or a function the sum is a string built from its text, which
  is not modelled; the scenario only adds to numbers.
\<close>

fun plus_one :: "val \<Rightarrow> val" where
  "plus_one (Num n) = Num (n + 1)"
| "plus_one (Bool b) = Num (if b then 2 else 1)"
| "plus_one Null = Num 1"
| "plus_one (Str s) = Str (s @ ''1'')"
| "plus_one v = Undefined"

text \<open>\<open>(s = 0, a) => a.type === 'INC' ? s + 1 : s\<close>, whatever the function value.\<close>

definition counter :: env where
  "counter f args =
     (let s = (if arg args 0 = Undefined then Num 0 else arg args 0); a = arg args 1 in
      case get_prop a ''type'' of
        Inl e \<Rightarrow> Throw e
      | Inr t \<Rightarrow> if strict_eq t (Str ''INC'') then Return (plus_one s) else Return s)"

definition INC :: "nat \<Rightarrow> val" where
  "INC a = Obj a [(''type'', Str ''INC'')]"

text \<open>Dispatching a list of actions from outside, one after the other.\<close>

fun dispatch_all :: "nat \<Rightarrow> env \<Rightarrow> val list \<Rightarrow> world \<Rightarrow> world option" where
  "dispatch_all n env [] s = Some s"
| "dispatch_all n env (a # as) s =
     (case store_dispatch n env a s of
        Some (Inr r, s') \<Rightarrow> dispatch_all n env as s'
      | _ \<Rightarrow> None)"

text \<open>A store at rest, with reducer \<open>Fun 0\<close>, state \<open>7\<close> and no listener.\<close>

definition idle_world :: world where
  "idle_world = \<lparr>currentReducer = Fun 0, currentState = Num 7,
                 currentListeners = 0, nextListeners = 0, isDispatching = False,
                 arrays = (\<lambda>a. []), fresh = 1, closures = [], trace = []\<rparr>"

text \<open>
  Callbacks for the examples.  \<open>rethrow\<close> continues a callback that does not catch:
  an exception of the call goes on to the caller, otherwise the callback returns.
  Function \<open>0\<close> is the counter, \<open>1\<close> a listener that dispatches once, when the state
  is \<open>1\<close>, \<open>2\<close> a listener that subscribes listener \<open>3\<close>, \<open>4\<close> a reducer that throws,
  \<open>5\<close> a reducer that dispatches, \<open>6\<close> a reducer that returns what \<open>getState\<close>
  gives, plus one, and \<open>7\<close> a listener that calls the \<open>unsubscribe\<close> closure \<open>1\<close>;
  every other function just returns.
\<close>

definition rethrow :: "error + 'a \<Rightarrow> prog" where
  "rethrow r = (case r of Inl e \<Rightarrow> Throw e | Inr v \<Rightarrow> Return Undefined)"

definition sample :: env where
  "sample f args =
     (if f = 0 then counter f args
      else if f = 1 then
        GetState (\<lambda>v. if v = Num 1 then Dispatch (INC 9) rethrow else Return Undefined)
      else if f = 2 then Subscribe (Fun 3) rethrow
      else if f = 4 then Throw (Error ''boom'')
      else if f = 5 then Dispatch (INC 8) rethrow
      else if f = 6 then GetState (\<lambda>v. Return (plus_one v))
      else if f = 7 then Unsubscribe 1 (Return Undefined)
      else Return Undefined)"

text \<open>A store at rest in state \<open>0\<close> whose only listener is \<open>l\<close>.\<close>

definition listening_world :: "val \<Rightarrow> world" where
  "listening_world l = \<lparr>currentReducer = Fun 0, currentState = Num 0,
                 currentListeners = 0, nextListeners = 0, isDispatching = False,
                 arrays = (\<lambda>a. if a = 0 then [l] else []), fresh = 1, closures = [],
                 trace = []\<rparr>"

text \<open>
  A store at rest in state \<open>0\<close> with the listeners \<open>7\<close> and \<open>3\<close>, subscribed in this
  order; closure \<open>1\<close> is the \<open>unsubscribe\<close> of listener \<open>3\<close>.
\<close>

definition unsubscribing_world :: world where
  "unsubscribing_world = \<lparr>currentReducer = Fun 0, currentState = Num 0,
                 currentListeners = 0, nextListeners = 0, isDispatching = False,
                 arrays = (\<lambda>a. if a = 0 then [Fun 7, Fun 3] else []), fresh = 1,
                 closures = [(Fun 7, True), (Fun 3, True)], trace = []\<rparr>"

section \<open>compose\<close>

text \<open>
  A function takes the list of its arguments and returns a value or throws.  In
  \<open>(...args) => a(b(...args))\<close> the call of \<open>b\<close> comes first; when it throws, \<open>a\<close> is not
  called, otherwise \<open>a\<close> is called with the one value \<open>b\<close> returned.  \<open>reduce\<close> without
  initial value starts from the first function.
\<close>

type_synonym jsfun = "val list \<Rightarrow> error + val"

definition compose :: "jsfun list \<Rightarrow> jsfun" where
  "compose funcs =
     (if length funcs = 0 then (\<lambda>args. Inr (arg args 0))
      else if length funcs = 1 then funcs ! 0
      else foldl (\<lambda>a b. (\<lambda>args. case b args of Inl e \<Rightarrow> Inl e | Inr x \<Rightarrow> a [x]))
             (hd funcs) (tl funcs))"

text \<open>Functions for an example: the successor, the double, the sum of two numbers, and
  a function that throws.\<close>

definition successor :: jsfun where
  "successor args = (case arg args 0 of Num n \<Rightarrow> Inr (Num (n + 1)) | _ \<Rightarrow> Inl (TypeError ''number expected''))"

definition double :: jsfun where
  "double args = (case arg args 0 of Num n \<Rightarrow> Inr (Num (2 * n)) | _ \<Rightarrow> Inl (TypeError ''number expected''))"

definition sum_of_two :: jsfun where
  "sum_of_two args =
     (case (arg args 0, arg args 1) of
        (Num n, Num m) \<Rightarrow> Inr (Num (n + m))
      | _ \<Rightarrow> Inl (TypeError ''numbers expected''))"

definition failing :: jsfun where
  "failing args = Inl (Error ''boom'')"

section \<open>combineReducers\<close>

subsection \<open>The runtime\<close>

text \<open>
  What the JavaScript runtime contributes to \<open>combineReducers\<close>, as parameters of the
  model: whether \<open>process.env.NODE_ENV\<close> is \<open>'production'\<close>; the members of
  \<open>Object.prototype\<close>, which an object literal inherits; the properties that a
  primitive, a function or an exotic object has without holding them itself; what
  \<open>toString()\<close> gives for a function, an object or a number of more than 21 digits
  (the call may throw); and the class that \<open>Object.prototype.toString\<close> reports for an
  exotic object, as the regular expression of the warning extracts it (the extraction
  may throw).  A plain object \<open>Obj\<close> is taken to inherit from \<open>Object.prototype\<close>, as
  an object literal does, and \<open>Object.prototype.hasOwnProperty\<close> to be the built-in
  function.  Properties are data properties: accessors defined by the application are
  outside the model.
\<close>

record runtime =
  production :: bool
  object_prototype :: "string \<Rightarrow> val"
  builtin :: "val \<Rightarrow> string \<Rightarrow> val"
  text_of :: "val \<Rightarrow> error + string"
  tag_of :: "val \<Rightarrow> error + string"

type_synonym fields = "(string \<times> val) list"

text \<open>\<open>o[k]\<close> for an object literal \<open>o\<close> with the own properties \<open>fs\<close>.\<close>

definition read_literal :: "runtime \<Rightarrow> fields \<Rightarrow> string \<Rightarrow> val" where
  "read_literal rt fs k = (case map_of fs k of Some v \<Rightarrow> v | None \<Rightarrow> object_prototype rt k)"

text \<open>
  \<open>v[k]\<close> for any value: an own property first, then what the value inherits; reading
  a property of \<open>undefined\<close> or \<open>null\<close> throws a TypeError.
\<close>

fun property :: "runtime \<Rightarrow> val \<Rightarrow> string \<Rightarrow> error + val" where
  "property rt Undefined k = Inl (TypeError ''Cannot read property of undefined'')"
| "property rt Null k = Inl (TypeError ''Cannot read property of null'')"
| "property rt (Obj a fs) k = Inr (read_literal rt fs k)"
| "property rt (Exotic a fs) k =
     Inr (case map_of fs k of Some v \<Rightarrow> v | None \<Rightarrow> builtin rt (Exotic a fs) k)"
| "property rt v k = Inr (builtin rt v k)"

text \<open>
  \<open>o[k] = v\<close> for an object literal \<open>o\<close> with the own properties \<open>fs\<close>.  The key
  \<open>__proto__\<close> is the accessor of \<open>Object.prototype\<close>: assigning to it changes the
  prototype of \<open>o\<close>, or nothing, and adds no own property.  \<open>combineReducers\<close> makes such
  an assignment only to \<open>finalReducers\<close>, with a function as value, and to the cache
  of reported keys, with \<open>true\<close>; a function holds no property in this model and the
  assignment of \<open>true\<close> is ignored, so that the own properties stay all that is read.
\<close>

definition assign :: "fields \<Rightarrow> string \<Rightarrow> val \<Rightarrow> fields" where
  "assign fs k v = (if k = ''__proto__'' then fs else set_prop fs k v)"

subsection \<open>Sub-reducers and messages\<close>

text \<open>
  A sub-reducer is a function of the prior state and the action that returns a value or
  throws; it has no other effect.  An environment maps a function value to the
  function.  The argument of \<open>combineReducers\<close> is given by its own enumerable
  properties, in the order \<open>Object.keys\<close> lists them.  Object literals that leave the
  function are allocated at addresses the caller supplies.

  Modelled from the spec: the helper \<open>warning\<close> of \<open>utils/warning\<close> is not among the
  sources; by the specification a diagnostic is advisory output that never throws, so
  \<open>warning\<close> adds its message to the list of the messages put out and returns.
\<close>

type_synonym reducers = "nat \<Rightarrow> val \<Rightarrow> val \<Rightarrow> error + val"

definition warning :: "string \<Rightarrow> string list \<Rightarrow> string list" where
  "warning message out = out @ [message]"

definition call_reducer :: "reducers \<Rightarrow> val \<Rightarrow> val \<Rightarrow> val \<Rightarrow> error + val" where
  "call_reducer env r s a = (case r of Fun f \<Rightarrow> env f s a | _ \<Rightarrow> Inl err_not_a_function)"

definition object_keys :: "fields \<Rightarrow> string list" where
  "object_keys fs = map fst fs"

text \<open>\<open>Object.keys(v)\<close> for an object; the model holds no key of another value.\<close>

fun own_keys :: "val \<Rightarrow> string list" where
  "own_keys (Obj a fs) = object_keys fs"
| "own_keys (Exotic a fs) = object_keys fs"
| "own_keys v = []"

definition quoted :: "string \<Rightarrow> string" where
  "quoted s = [CHR 0x22] @ s @ [CHR 0x22]"

text \<open>\<open>xs.join(sep)\<close>\<close>

fun join :: "string \<Rightarrow> string list \<Rightarrow> string" where
  "join sep [] = []"
| "join sep [x] = x"
| "join sep (x # y # ys) = x @ sep @ join sep (y # ys)"

text \<open>Truthiness, and the text \<open>toString()\<close> gives.\<close>

fun truthy :: "val \<Rightarrow> bool" where
  "truthy Undefined = False"
| "truthy Null = False"
| "truthy (Bool b) = b"
| "truthy (Num n) = (n \<noteq> 0)"
| "truthy (Str s) = (s \<noteq> [])"
| "truthy v = True"

fun digits :: "nat \<Rightarrow> string" where
  "digits n = (if n < 10 then [char_of (48 + n)] else digits (n div 10) @ [char_of (48 + n mod 10)])"

fun to_string :: "runtime \<Rightarrow> val \<Rightarrow> error + string" where
  "to_string rt (Str s) = Inr s"
| "to_string rt (Num n) =
     (if \<bar>n\<bar> < 1000000000000000000000
      then Inr (if n < 0 then ''-'' @ digits (nat (- n)) else digits (nat n))
      else text_of rt (Num n))"
| "to_string rt (Bool b) = Inr (if b then ''true'' else ''false'')"
| "to_string rt Null = Inl (TypeError ''Cannot read property of null'')"
| "to_string rt Undefined = Inl (TypeError ''Cannot read property of undefined'')"
| "to_string rt v = text_of rt v"

definition getUndefinedStateErrorMessage :: "runtime \<Rightarrow> string \<Rightarrow> val \<Rightarrow> error + string" where
  "getUndefinedStateErrorMessage rt key action =
     (case (if truthy action then property rt action ''type'' else Inr action) of
        Inl e \<Rightarrow> Inl e
      | Inr actionType \<Rightarrow>
          (case (if truthy actionType
                 then (case to_string rt actionType of Inl e \<Rightarrow> Inl e | Inr t \<Rightarrow> Inr (quoted t))
                 else Inr ''an action'') of
             Inl e \<Rightarrow> Inl e
           | Inr actionName \<Rightarrow>
               Inr (''Given action '' @ actionName @ '', reducer '' @ quoted key
                    @ '' returned undefined. ''
                    @ ''To ignore an action, you must explicitly return the previous state. ''
                    @ ''If you want this reducer to hold no value, you can return null instead of undefined.'')))"

text \<open>
  The class in \<open>({}).toString.call(v)\<close>, as \<open>match(/\s([a-z|A-Z]+)/)[1]\<close> extracts it.
\<close>

fun tag :: "runtime \<Rightarrow> val \<Rightarrow> error + string" where
  "tag rt Undefined = Inr ''Undefined''"
| "tag rt Null = Inr ''Null''"
| "tag rt (Bool b) = Inr ''Boolean''"
| "tag rt (Num n) = Inr ''Number''"
| "tag rt (Str s) = Inr ''String''"
| "tag rt (Fun f) = Inr ''Function''"
| "tag rt (Obj a fs) = Inr ''Object''"
| "tag rt (Exotic a fs) = tag_of rt (Exotic a fs)"

text \<open>
  The test of the \<open>filter\<close> in \<open>getUnexpectedStateShapeWarningMessage\<close>:
  \<open>!reducers.hasOwnProperty(key) && !unexpectedKeyCache[key]\<close>.  When \<open>reducers\<close> holds
  a property \<open>hasOwnProperty\<close> itself, that sub-reducer is what is called, with the key
  as state and no action.  The cache is \<open>None\<close> when the variable is \<open>undefined\<close>.
\<close>

definition is_unexpected ::
    "runtime \<Rightarrow> reducers \<Rightarrow> fields \<Rightarrow> fields option \<Rightarrow> string \<Rightarrow> error + bool" where
  "is_unexpected rt env reducers unexpectedKeyCache key =
     (case (case map_of reducers ''hasOwnProperty'' of
              Some r \<Rightarrow> (case call_reducer env r (Str key) Undefined of
                           Inl e \<Rightarrow> Inl e
                         | Inr v \<Rightarrow> Inr (truthy v))
            | None \<Rightarrow> Inr (key \<in> set (object_keys reducers))) of
        Inl e \<Rightarrow> Inl e
      | Inr has \<Rightarrow>
          if has then Inr False
          else (case unexpectedKeyCache of
                  None \<Rightarrow> Inl (TypeError ''Cannot read property of undefined'')
                | Some seen \<Rightarrow> Inr (\<not> truthy (read_literal rt seen key))))"

text \<open>\<open>keys.filter(test)\<close> for a test that may throw.\<close>

fun filter_keys :: "(string \<Rightarrow> error + bool) \<Rightarrow> string list \<Rightarrow> error + string list" where
  "filter_keys test [] = Inr []"
| "filter_keys test (key # keys) =
     (case test key of
        Inl e \<Rightarrow> Inl e
      | Inr b \<Rightarrow>
          (case filter_keys test keys of
             Inl e \<Rightarrow> Inl e
           | Inr rest \<Rightarrow> Inr (if b then key # rest else rest)))"

text \<open>
  \<open>getUnexpectedStateShapeWarningMessage\<close> returns the message, or \<open>None\<close> for
  \<open>undefined\<close>, and the cache as it leaves it.
\<close>

definition getUnexpectedStateShapeWarningMessage ::
    "runtime \<Rightarrow> reducers \<Rightarrow> val \<Rightarrow> fields \<Rightarrow> val \<Rightarrow> fields option
       \<Rightarrow> error + string option \<times> fields option" where
  "getUnexpectedStateShapeWarningMessage rt env inputState reducers action unexpectedKeyCache =
     (let reducerKeys = object_keys reducers in
      case (if truthy action
            then (case property rt action ''type'' of
                    Inl e \<Rightarrow> Inl e
                  | Inr t \<Rightarrow> Inr (strict_eq t (Str ActionTypes_INIT)))
            else Inr False) of
        Inl e \<Rightarrow> Inl e
      | Inr init \<Rightarrow>
          (let argumentName = (if init then ''preloadedState argument passed to createStore''
                               else ''previous state received by the reducer'') in
           if length reducerKeys = 0 then
             Inr (Some (''Store does not have a valid reducer. Make sure the argument passed ''
                        @ ''to combineReducers is an object whose values are reducers.''),
                  unexpectedKeyCache)
           else if \<not> isPlainObject inputState then
             (case tag rt inputState of
                Inl e \<Rightarrow> Inl e
              | Inr t \<Rightarrow>
                  Inr (Some (''The '' @ argumentName @ '' has unexpected type of '' @ [CHR 0x22]
                             @ t @ [CHR 0x22] @ ''. Expected argument to be an object with the following ''
                             @ ''keys: '' @ quoted (join ([CHR 0x22] @ '', '' @ [CHR 0x22]) reducerKeys)),
                       unexpectedKeyCache))
           else
             (case filter_keys (is_unexpected rt env reducers unexpectedKeyCache)
                     (own_keys inputState) of
                Inl e \<Rightarrow> Inl e
              | Inr unexpectedKeys \<Rightarrow>
                  (let cache = map_option
                         (\<lambda>seen. fold (\<lambda>key seen. assign seen key (Bool True)) unexpectedKeys seen)
                         unexpectedKeyCache
                   in if length unexpectedKeys > 0 then
                        Inr (Some (''Unexpected '' @ (if length unexpectedKeys > 1 then ''keys'' else ''key'')
                                   @ '' '' @ quoted (join ([CHR 0x22] @ '', '' @ [CHR 0x22]) unexpectedKeys)
                                   @ '' found in '' @ argumentName @ ''. ''
                                   @ ''Expected to find one of the known reducer keys instead: ''
                                   @ quoted (join ([CHR 0x22] @ '', '' @ [CHR 0x22]) reducerKeys)
                                   @ ''. Unexpected keys will be ignored.''),
                             cache)
                      else Inr (None, cache)))))"

definition err_initialization :: "string \<Rightarrow> error" where
  "err_initialization key =
     Error (''Reducer '' @ quoted key @ '' returned undefined during initialization. ''
        @ ''If the state passed to the reducer is undefined, you must ''
        @ ''explicitly return the initial state. The initial state may ''
        @ ''not be undefined. If you don'' @ [CHR 0x27] @ ''t want to set a value for this reducer, ''
        @ ''you can use null instead of undefined.'')"

definition err_probe :: "string \<Rightarrow> error" where
  "err_probe key =
     Error (''Reducer '' @ quoted key @ '' returned undefined when probed with a random type. ''
        @ ''Don'' @ [CHR 0x27] @ ''t try to handle '' @ ActionTypes_INIT @ '' or other actions in ''
        @ quoted ''redux/*'' @ '' ''
        @ ''namespace. They are considered private. Instead, you must return the ''
        @ ''current state for any unknown actions, unless it is undefined, ''
        @ ''in which case you must return the initial state, regardless of the ''
        @ ''action type. The initial state may not be undefined, but can be null.'')"

text \<open>\<open>s.split('').join('.')\<close>\<close>

fun join_dots :: "string \<Rightarrow> string" where
  "join_dots [] = []"
| "join_dots [c] = [c]"
| "join_dots (c # cs) = c # CHR ''.'' # join_dots cs"

text \<open>
  The action \<open>{ type }\<close> of the probe, allocated at \<open>a\<close>; \<open>r\<close> is what
  \<open>Math.random().toString(36).substring(7)\<close> gave.
\<close>

definition probe_action :: "nat \<Rightarrow> string \<Rightarrow> val" where
  "probe_action a r = Obj a [(''type'', Str (''@@redux/PROBE_UNKNOWN_ACTION_'' @ join_dots r))]"

subsection \<open>assertReducerShape and combineReducers\<close>

text \<open>
  \<open>assertReducerShape\<close>: the \<open>forEach\<close> over the keys.  \<open>i\<close> counts the calls of
  \<open>Math.random\<close>, whose results \<open>rnd\<close> lists, and \<open>a\<close> is the next unused address.
  What a sub-reducer throws leaves the function as it is.
\<close>

fun assertReducerShape_from ::
    "reducers \<Rightarrow> (nat \<Rightarrow> string) \<Rightarrow> fields \<Rightarrow> string list \<Rightarrow> nat \<Rightarrow> nat \<Rightarrow> error + unit" where
  "assertReducerShape_from env rnd reducers [] i a = Inr ()"
| "assertReducerShape_from env rnd reducers (key # keys) i a =
     (let reducer = lookup reducers key in
      case call_reducer env reducer Undefined (INIT_action a) of
        Inl e \<Rightarrow> Inl e
      | Inr initialState \<Rightarrow>
          if typeof initialState = ''undefined'' then Inl (err_initialization key)
          else
            (case call_reducer env reducer Undefined (probe_action (Suc a) (rnd i)) of
               Inl e \<Rightarrow> Inl e
             | Inr probed \<Rightarrow>
                 if typeof probed = ''undefined'' then Inl (err_probe key)
                 else assertReducerShape_from env rnd reducers keys (Suc i) (Suc (Suc a))))"

definition assertReducerShape ::
    "reducers \<Rightarrow> (nat \<Rightarrow> string) \<Rightarrow> nat \<Rightarrow> fields \<Rightarrow> error + unit" where
  "assertReducerShape env rnd h reducers =
     assertReducerShape_from env rnd reducers (object_keys reducers) 0 h"

text \<open>
  The first loop of \<open>combineReducers\<close>, on \<open>finalReducers\<close> and the messages put out:
  outside production a key without value is reported; an entry whose value is a
  function is kept.
\<close>

fun collect ::
    "runtime \<Rightarrow> fields \<Rightarrow> string list \<Rightarrow> fields \<times> string list \<Rightarrow> fields \<times> string list" where
  "collect rt reducers [] (finalReducers, out) = (finalReducers, out)"
| "collect rt reducers (key # keys) (finalReducers, out) =
     collect rt reducers keys
       (if typeof (lookup reducers key) = ''function''
        then assign finalReducers key (lookup reducers key)
        else finalReducers,
        if \<not> production rt \<and> typeof (lookup reducers key) = ''undefined''
        then warning (''No reducer provided for key '' @ quoted key) out
        else out)"

text \<open>
  What the returned function \<open>combination\<close> closes over, with the own properties of the
  cache object \<open>unexpectedKeyCache\<close> refers to (\<open>None\<close> when the variable is
  \<open>undefined\<close>) and the messages handed to \<open>warning\<close> so far.
\<close>

record closure =
  finalReducers :: fields
  finalReducerKeys :: "string list"
  unexpectedKeyCache :: "fields option"
  shapeAssertionError :: "error option"
  warnings :: "string list"

definition combineReducers ::
    "runtime \<Rightarrow> reducers \<Rightarrow> (nat \<Rightarrow> string) \<Rightarrow> nat \<Rightarrow> fields \<Rightarrow> closure" where
  "combineReducers rt env rnd h reducers =
     (let reducerKeys = object_keys reducers;
          (final, out) = collect rt reducers reducerKeys ([], [])
      in \<lparr>finalReducers = final,
          finalReducerKeys = object_keys final,
          unexpectedKeyCache = (if \<not> production rt then Some [] else None),
          shapeAssertionError =
            (case assertReducerShape env rnd h final of Inl e \<Rightarrow> Some e | Inr u \<Rightarrow> None),
          warnings = out\<rparr>)"

text \<open>The loop of \<open>combination\<close> over \<open>finalReducerKeys\<close>, from the key list that is left.\<close>

fun combine_from ::
    "runtime \<Rightarrow> reducers \<Rightarrow> fields \<Rightarrow> string list \<Rightarrow> val \<Rightarrow> val \<Rightarrow> bool \<Rightarrow> fields
       \<Rightarrow> error + bool \<times> fields" where
  "combine_from rt env final [] state action hasChanged nextState = Inr (hasChanged, nextState)"
| "combine_from rt env final (key # keys) state action hasChanged nextState =
     (let reducer = lookup final key in
      case property rt state key of
        Inl e \<Rightarrow> Inl e
      | Inr previousStateForKey \<Rightarrow>
          (case call_reducer env reducer previousStateForKey action of
             Inl e \<Rightarrow> Inl e
           | Inr nextStateForKey \<Rightarrow>
               if typeof nextStateForKey = ''undefined''
               then (case getUndefinedStateErrorMessage rt key action of
                       Inl e \<Rightarrow> Inl e
                     | Inr errorMessage \<Rightarrow> Inl (Error errorMessage))
               else combine_from rt env final keys state action
                      (hasChanged \<or> \<not> strict_eq nextStateForKey previousStateForKey)
                      (assign nextState key nextStateForKey)))"

text \<open>
  \<open>combination(state = {}, action)\<close>, with the closure as it leaves it.  \<open>h\<close> is the
  next unused address: the default \<open>{}\<close> is allocated there when \<open>state\<close> is
  \<open>undefined\<close>, and \<open>nextState\<close> after it.  The diagnostic of the state's shape runs
  outside production, before the loop; when it throws, nothing has been written yet.
\<close>

definition combination ::
    "runtime \<Rightarrow> reducers \<Rightarrow> closure \<Rightarrow> nat \<Rightarrow> val \<Rightarrow> val \<Rightarrow> (error + val) \<times> closure" where
  "combination rt env c h state0 action =
     (let state = (if state0 = Undefined then Obj h [] else state0);
          h1 = (if state0 = Undefined then Suc h else h)
      in case shapeAssertionError c of
           Some e \<Rightarrow> (Inl e, c)
         | None \<Rightarrow>
             (case (if \<not> production rt then
                      (case getUnexpectedStateShapeWarningMessage rt env state (finalReducers c)
                              action (unexpectedKeyCache c) of
                         Inl e \<Rightarrow> Inl e
                       | Inr (warningMessage, cache) \<Rightarrow>
                           Inr (c\<lparr>unexpectedKeyCache := cache,
                                  warnings := (case warningMessage of
                                                 None \<Rightarrow> warnings c
                                               | Some message \<Rightarrow> warning message (warnings c))\<rparr>))
                    else Inr c) of
                Inl e \<Rightarrow> (Inl e, c)
              | Inr c1 \<Rightarrow>
                  (case combine_from rt env (finalReducers c) (finalReducerKeys c) state action
                          False [] of
                     Inl e \<Rightarrow> (Inl e, c1)
                   | Inr (hasChanged, nextState) \<Rightarrow>
                       (Inr (if hasChanged then Obj h1 nextState else state), c1))))"

subsection \<open>The combination in the specification's words\<close>

text \<open>
  \<open>nextPart\<close> is \<open>subReducer(priorState[key], action)\<close>.  A part is kept when the
  sub-reducer returns a value other than \<open>undefined\<close> that is \<open>===\<close> to its input part,
  and new when it returns a value other than \<open>undefined\<close> that is \<open>!==\<close> to it.
\<close>

definition nextPart :: "runtime \<Rightarrow> reducers \<Rightarrow> fields \<Rightarrow> val \<Rightarrow> val \<Rightarrow> string \<Rightarrow> error + val" where
  "nextPart rt env final state action key =
     (case property rt state key of
        Inl e \<Rightarrow> Inl e
      | Inr prior \<Rightarrow> call_reducer env (lookup final key) prior action)"

definition part_kept :: "runtime \<Rightarrow> reducers \<Rightarrow> fields \<Rightarrow> val \<Rightarrow> val \<Rightarrow> string \<Rightarrow> bool" where
  "part_kept rt env final state action key =
     (case property rt state key of
        Inl e \<Rightarrow> False
      | Inr prior \<Rightarrow>
          (case nextPart rt env final state action key of
             Inl e \<Rightarrow> False
           | Inr v \<Rightarrow> v \<noteq> Undefined \<and> strict_eq v prior))"

definition part_new :: "runtime \<Rightarrow> reducers \<Rightarrow> fields \<Rightarrow> val \<Rightarrow> val \<Rightarrow> string \<Rightarrow> bool" where
  "part_new rt env final state action key =
     (case property rt state key of
        Inl e \<Rightarrow> False
      | Inr prior \<Rightarrow>
          (case nextPart rt env final state action key of
             Inl e \<Rightarrow> False
           | Inr v \<Rightarrow> v \<noteq> Undefined \<and> \<not> strict_eq v prior))"

definition the_part :: "runtime \<Rightarrow> reducers \<Rightarrow> fields \<Rightarrow> val \<Rightarrow> val \<Rightarrow> string \<Rightarrow> val" where
  "the_part rt env final state action key =
     (case nextPart rt env final state action key of Inl e \<Rightarrow> Undefined | Inr v \<Rightarrow> v)"

text \<open>
  The diagnostic of the state's shape returns: the build is a production build, or
  \<open>getUnexpectedStateShapeWarningMessage\<close> does not throw.
\<close>

definition diagnostic_returns :: "runtime \<Rightarrow> reducers \<Rightarrow> closure \<Rightarrow> val \<Rightarrow> val \<Rightarrow> bool" where
  "diagnostic_returns rt env c state action =
     (production rt \<or>
      (case getUnexpectedStateShapeWarningMessage rt env state (finalReducers c) action
              (unexpectedKeyCache c) of
         Inl e \<Rightarrow> False
       | Inr r \<Rightarrow> True))"

text \<open>
  The value \<open>v\<close> was allocated before the address \<open>h\<close>: this is what makes \<open>h\<close> an
  unused address for a caller that holds \<open>v\<close>.
\<close>

fun older :: "nat \<Rightarrow> val \<Rightarrow> bool" where
  "older h (Obj a fs) = (a < h)"
| "older h (Exotic a fs) = (a < h)"
| "older h v = True"







subsection \<open>Sub-reducers for the examples\<close>

text \<open>
  Function \<open>0\<close> is the counter \<open>(s = 0, a) => a.type === 'INC' ? s + 1 : s\<close>, \<open>1\<close> is
  \<open>s => s\<close>, \<open>2\<close> is \<open>(s, a) => a.type === '@@redux/INIT' ? 0 : s\<close>, \<open>3\<close> is
  \<open>(s, a) => s === undefined && a.type !== 'NOOP' ? 0 : s\<close>, \<open>4\<close> is
  \<open>(s = 0, a) => a.type === 'RESET' ? 0 : s\<close> and \<open>5\<close> throws; every other function
  returns \<open>null\<close>.  Reading \<open>a.type\<close> throws when there is no action.
\<close>

definition action_type :: "val \<Rightarrow> error + val" where
  "action_type a = get_prop a ''type''"

definition sample_reducers :: reducers where
  "sample_reducers f s a =
     (if f = 0 then
        (let s' = (if s = Undefined then Num 0 else s) in
         case action_type a of
           Inl e \<Rightarrow> Inl e
         | Inr t \<Rightarrow> Inr (if t = Str ''INC'' then plus_one s' else s'))
      else if f = 1 then Inr s
      else if f = 2 then
        (case action_type a of
           Inl e \<Rightarrow> Inl e
         | Inr t \<Rightarrow> Inr (if t = Str ActionTypes_INIT then Num 0 else s))
      else if f = 3 then
        (if s = Undefined
         then (case action_type a of
                 Inl e \<Rightarrow> Inl e
               | Inr t \<Rightarrow> Inr (if t \<noteq> Str ''NOOP'' then Num 0 else s))
         else Inr s)
      else if f = 4 then
        (let s' = (if s = Undefined then Num 0 else s) in
         case action_type a of
           Inl e \<Rightarrow> Inl e
         | Inr t \<Rightarrow> Inr (if t = Str ''RESET'' then Num 0 else s'))
      else if f = 5 then Inl (Error ''boom'')
      else Inr Null)"

definition no_random :: "nat \<Rightarrow> string" where
  "no_random i = ''x''"

definition NOOP :: "nat \<Rightarrow> val" where
  "NOOP a = Obj a [(''type'', Str ''NOOP'')]"

text \<open>
  A runtime for the examples, outside production: \<open>Object.prototype\<close> with the members
  of ECMAScript 5 as functions \<open>100\<close> to \<open>106\<close> and itself, the exotic object \<open>99\<close>,
  under \<open>__proto__\<close>; the \<open>length\<close> of a string; \<open>[object Object]\<close> as the text of a
  function or an object.  The examples read no other built-in property.
\<close>

definition sample_runtime :: runtime where
  "sample_runtime =
     \<lparr>production = False,
      object_prototype = (\<lambda>k.
         if k = ''constructor'' then Fun 100
         else if k = ''hasOwnProperty'' then Fun 101
         else if k = ''isPrototypeOf'' then Fun 102
         else if k = ''propertyIsEnumerable'' then Fun 103
         else if k = ''toLocaleString'' then Fun 104
         else if k = ''toString'' then Fun 105
         else if k = ''valueOf'' then Fun 106
         else if k = ''__proto__'' then Exotic 99 []
         else Undefined),
      builtin = (\<lambda>v k. case v of
                          Str s \<Rightarrow> (if k = ''length'' then Num (int (length s)) else Undefined)
                        | _ \<Rightarrow> Undefined),
      text_of = (\<lambda>v. Inr ''[object Object]''),
      tag_of = (\<lambda>v. Inr ''Object'')\<rparr>"

section \<open>Basic facts about values\<close>

lemma typeof_function [simp]: "typeof v = ''function'' \<longleftrightarrow> (\<exists>f. v = Fun f)"
  by (cases v) simp_all

lemma typeof_undefined [simp]: "typeof v = ''undefined'' \<longleftrightarrow> v = Undefined"
  by (cases v) simp_all

lemma strict_eq_Fun [simp]: "strict_eq x (Fun f) \<longleftrightarrow> x = Fun f"
  by (cases x) simp_all

section \<open>The store\<close>

subsection \<open>Validation of the action\<close>

text \<open>
  Claim C4.  A value that is not a plain object is rejected with the plain-object
  error, and a plain object whose \<open>type\<close> is \<open>undefined\<close> with the type error.  In both
  cases \<open>dispatch\<close> returns the world it was given: the state is unchanged and the trace
  shows that no reducer was called, whatever runs the callbacks and whatever the
  dispatch guard.  The shape is checked first: the first error does not depend on any
  \<open>type\<close> field.
\<close>

theorem dispatch_rejects_invalid_action:
  "(\<not> isPlainObject a \<longrightarrow> dispatch m run env a s = Some (Inl err_plain_object, s)) \<and>
   (isPlainObject a \<and> get_prop a ''type'' = Inr Undefined \<longrightarrow>
      dispatch m run env a s = Some (Inl err_undefined_type, s))"
  by (simp add: dispatch_def)

theorem dispatch_rejects_invalid_action_witness:
  "\<not> isPlainObject (Num 5) \<and>
   dispatch 0 (exec 0 counter) counter (Num 5) idle_world = Some (Inl err_plain_object, idle_world) \<and>
   \<not> isPlainObject (Exotic 1 [(''type'', Str ''INC'')]) \<and>
   dispatch 0 (exec 0 counter) counter (Exotic 1 [(''type'', Str ''INC'')]) idle_world
     = Some (Inl err_plain_object, idle_world) \<and>
   isPlainObject (Obj 1 []) \<and> get_prop (Obj 1 []) ''type'' = Inr Undefined \<and>
   dispatch 0 (exec 0 counter) counter (Obj 1 []) idle_world
     = Some (Inl err_undefined_type, idle_world)"
  using dispatch_rejects_invalid_action [of "Num 5" 0 "exec 0 counter" counter idle_world]
        dispatch_rejects_invalid_action
          [of "Exotic 1 [(''type'', Str ''INC'')]" 0 "exec 0 counter" counter idle_world]
        dispatch_rejects_invalid_action [of "Obj 1 []" 0 "exec 0 counter" counter idle_world]
  by (simp add: lookup_def)

subsection \<open>The dispatch guard and the calls a dispatch makes\<close>

text \<open>
  Every method of the store restores \<open>isDispatching\<close> and only adds calls to the trace.
  The facts are proved over an arbitrary runner that has the property, and then for
  \<open>exec\<close> by induction on the fuel.
\<close>

lemma calls_ok_same: "trace s' = trace s \<Longrightarrow> isDispatching s' = isDispatching s \<Longrightarrow> calls_ok s s'"
  by (simp add: calls_ok_def)

lemma calls_ok_trans: "calls_ok s s' \<Longrightarrow> calls_ok s' s'' \<Longrightarrow> calls_ok s s''"
  unfolding calls_ok_def by auto

lemma subscribe_same:
  "subscribe l s = (r, s') \<Longrightarrow> trace s' = trace s \<and> isDispatching s' = isDispatching s"
  by (auto simp: subscribe_def ensureCanMutateNextListeners_def push_def Let_def split: if_splits)

lemma unsubscribe_same:
  "unsubscribe u s = (r, s') \<Longrightarrow> trace s' = trace s \<and> isDispatching s' = isDispatching s"
  by (auto simp: unsubscribe_def ensureCanMutateNextListeners_def Let_def split: if_splits prod.splits)

lemma call_listener_calls_ok:
  assumes "keeps calls_ok run" "call run env v [] s = Some (r, s')" "\<not> isDispatching s"
  shows "calls_ok s s'"
proof (cases v)
  case (Fun f)
  let ?s = "s\<lparr>trace := trace s @ [(v, [], isDispatching s)]\<rparr>"
  from assms Fun have "calls_ok ?s s'" by (auto simp: call_def keeps_def)
  moreover have "calls_ok s ?s" using assms(3) by (simp add: calls_ok_def)
  ultimately show ?thesis by (rule calls_ok_trans[rotated])
qed (use assms in \<open>auto simp: call_def intro: calls_ok_same\<close>)

lemma notify_calls_ok:
  assumes "keeps calls_ok run"
  shows "notify m run env ls i s = Some (r, s') \<Longrightarrow> \<not> isDispatching s \<Longrightarrow> calls_ok s s'"
proof (induction m arbitrary: i s)
  case 0
  then show ?case by (auto split: if_splits intro: calls_ok_same)
next
  case (Suc m)
  show ?case
  proof (cases "i < length (arrays s ls)")
    case False
    with Suc.prems show ?thesis by (auto intro: calls_ok_same)
  next
    case True
    with Suc.prems obtain r1 s1 where c: "call run env (arrays s ls ! i) [] s = Some (r1, s1)"
      by (auto split: option.splits)
    have ok1: "calls_ok s s1" by (rule call_listener_calls_ok[OF assms c Suc.prems(2)])
    show ?thesis
    proof (cases r1)
      case (Inl e)
      with c True Suc.prems ok1 show ?thesis by auto
    next
      case (Inr v)
      with c True Suc.prems have n: "notify m run env ls (Suc i) s1 = Some (r, s')" by auto
      have "\<not> isDispatching s1" using ok1 Suc.prems(2) by (simp add: calls_ok_def)
      with n have "calls_ok s1 s'" by (rule Suc.IH)
      with ok1 show ?thesis by (rule calls_ok_trans)
    qed
  qed
qed

lemma call_reducer_trace:
  assumes "keeps calls_ok run" "call run env v args s = Some (r, s1)" "isDispatching s" "args \<noteq> []"
  shows "isDispatching s1 \<and>
         (\<exists>new. trace s1 = trace s @ new \<and> (\<forall>(f, args, g) \<in> set new. g = (args \<noteq> [])) \<and>
                (typeof v = ''function'' \<longrightarrow> new = [(v, args, True)]))"
proof (cases v)
  case (Fun f)
  let ?s = "s\<lparr>trace := trace s @ [(v, args, isDispatching s)]\<rparr>"
  from assms Fun have "calls_ok ?s s1" by (auto simp: call_def keeps_def)
  with assms(3,4) show ?thesis by (auto simp: calls_ok_def)
qed (use assms in \<open>auto simp: call_def\<close>)

lemma dispatch_calls_ok:
  assumes run: "keeps calls_ok run" and d: "dispatch m run env a s = Some (r, s')"
  shows "calls_ok s s'"
proof (cases "isPlainObject a \<and> (\<exists>t. get_prop a ''type'' = Inr t \<and> t \<noteq> Undefined) \<and> \<not> isDispatching s")
  case False
  with d have "s' = s"
    by (auto simp: dispatch_def split: if_splits sum.splits)
  then show ?thesis by (simp add: calls_ok_same)
next
  case True
  let ?s0 = "s\<lparr>isDispatching := True\<rparr>"
  from True d obtain r1 s1 where
    c: "call run env (currentReducer s) [currentState s, a] ?s0 = Some (r1, s1)"
    by (auto simp: dispatch_def split: option.splits)
  from call_reducer_trace[OF run c] obtain new where
    g1: "isDispatching s1" and t1: "trace s1 = trace s @ new"
    and n1: "\<forall>(f, args, g) \<in> set new. g = (args \<noteq> [])"
    by auto
  show ?thesis
  proof (cases r1)
    case (Inl e)
    with True d c have "s' = s1\<lparr>isDispatching := False\<rparr>"
      by (auto simp: dispatch_def)
    with True t1 n1 show ?thesis by (auto simp: calls_ok_def)
  next
    case (Inr v)
    let ?s3 = "s1\<lparr>currentState := v, isDispatching := False, currentListeners := nextListeners s1\<rparr>"
    from True d c Inr obtain r4 where
      n: "notify m run env (nextListeners s1) 0 ?s3 = Some (r4, s')"
      by (auto simp: dispatch_def Let_def split: option.splits sum.splits)
    have "calls_ok ?s3 s'" by (rule notify_calls_ok[OF run n]) simp
    with True t1 n1 show ?thesis by (auto simp: calls_ok_def)
  qed
qed

lemma replaceReducer_calls_ok:
  assumes run: "keeps calls_ok run" and d: "replaceReducer m run env nr s = Some (r, s')"
  shows "calls_ok s s'"
proof (cases "typeof nr = ''function''")
  case False
  with d have "s' = s" by (simp add: replaceReducer_def)
  then show ?thesis by (simp add: calls_ok_same)
next
  case True
  let ?s2 = "s\<lparr>currentReducer := nr, fresh := Suc (fresh s)\<rparr>"
  from True d obtain r1 where "dispatch m run env (INIT_action (fresh s)) ?s2 = Some (r1, s')"
    by (auto simp: replaceReducer_def Let_def split: option.splits sum.splits)
  from dispatch_calls_ok[OF run this] have "calls_ok ?s2 s'" .
  moreover have "calls_ok s ?s2" by (simp add: calls_ok_same)
  ultimately show ?thesis by (rule calls_ok_trans[rotated])
qed

lemma exec_calls_ok: "keeps calls_ok (exec n env)"
proof (induction n)
  case 0
  show ?case by (simp add: keeps_def)
next
  case (Suc n)
  show ?case
    unfolding keeps_def
  proof (intro allI impI)
    fix p s r s'
    assume e: "exec (Suc n) env p s = Some (r, s')"
    show "calls_ok s s'"
    proof (cases p)
      case (Return v)
      with e show ?thesis by (auto intro: calls_ok_same)
    next
      case (Throw x)
      with e show ?thesis by (auto intro: calls_ok_same)
    next
      case (GetState k)
      with e Suc show ?thesis by (auto simp: keeps_def)
    next
      case (Dispatch a k)
      with e obtain r1 s1 where d: "dispatch n (exec n env) env a s = Some (r1, s1)"
        and k: "exec n env (k r1) s1 = Some (r, s')"
        by (auto split: option.splits)
      from dispatch_calls_ok[OF Suc d] k Suc show ?thesis
        by (auto simp: keeps_def intro: calls_ok_trans)
    next
      case (Subscribe l k)
      with e obtain r1 s1 where d: "subscribe l s = (r1, s1)"
        and k: "exec n env (k r1) s1 = Some (r, s')"
        by (auto split: prod.splits)
      from subscribe_same[OF d] have "calls_ok s s1" by (simp add: calls_ok_same)
      with k Suc show ?thesis by (auto simp: keeps_def intro: calls_ok_trans)
    next
      case (Unsubscribe u q)
      obtain r1 s1 where d: "unsubscribe u s = (r1, s1)" by (cases "unsubscribe u s")
      from unsubscribe_same[OF d] have ok: "calls_ok s s1" by (simp add: calls_ok_same)
      show ?thesis
      proof (cases r1)
        case (Inl x)
        with e d Unsubscribe ok show ?thesis by auto
      next
        case (Inr v)
        with e d Unsubscribe have "exec n env q s1 = Some (r, s')" by auto
        with ok Suc show ?thesis by (auto simp: keeps_def intro: calls_ok_trans)
      qed
    next
      case (ReplaceReducer nr k)
      with e obtain r1 s1 where d: "replaceReducer n (exec n env) env nr s = Some (r1, s1)"
        and k: "exec n env (k r1) s1 = Some (r, s')"
        by (auto split: option.splits)
      from Suc k have "calls_ok s1 s'" unfolding keeps_def by blast
      with replaceReducer_calls_ok[OF Suc d] show ?thesis by (rule calls_ok_trans)
    qed
  qed
qed


lemma dispatch_trace:
  assumes run: "keeps calls_ok run"
    and a: "isPlainObject a" "get_prop a ''type'' = Inr t" "t \<noteq> Undefined"
    and g: "\<not> isDispatching s" and f: "currentReducer s = Fun f"
    and d: "dispatch m run env a s = Some (r, s')"
  shows "\<not> isDispatching s' \<and>
         (\<exists>rest. trace s' = trace s @ (Fun f, [currentState s, a], True) # rest \<and>
                 (\<forall>(f, args, g) \<in> set rest. g = (args \<noteq> [])))"
proof -
  let ?s0 = "s\<lparr>isDispatching := True\<rparr>"
  from a g d obtain r1 s1 where
    c: "call run env (currentReducer s) [currentState s, a] ?s0 = Some (r1, s1)"
    by (auto simp: dispatch_def split: option.splits)
  from call_reducer_trace[OF run c] f have
    g1: "isDispatching s1" and t1: "trace s1 = trace s @ [(Fun f, [currentState s, a], True)]"
    by auto
  show ?thesis
  proof (cases r1)
    case (Inl e)
    with a g d c have "s' = s1\<lparr>isDispatching := False\<rparr>"
      by (auto simp: dispatch_def)
    with t1 show ?thesis by simp
  next
    case (Inr v)
    let ?s3 = "s1\<lparr>currentState := v, isDispatching := False, currentListeners := nextListeners s1\<rparr>"
    from a g d c Inr obtain r4 where
      n: "notify m run env (nextListeners s1) 0 ?s3 = Some (r4, s')"
      by (auto simp: dispatch_def Let_def split: option.splits sum.splits)
    have "calls_ok ?s3 s'" by (rule notify_calls_ok[OF run n]) simp
    with t1 show ?thesis by (auto simp: calls_ok_def)
  qed
qed

lemma dispatch_reducer_throws:
  assumes a: "isPlainObject a" "get_prop a ''type'' = Inr t" "t \<noteq> Undefined"
    and g: "\<not> isDispatching s"
    and c: "call run env (currentReducer s) [currentState s, a] (s\<lparr>isDispatching := True\<rparr>)
              = Some (Inl e, s1)"
  shows "dispatch m run env a s = Some (Inl e, s1\<lparr>isDispatching := False\<rparr>)"
  using assms by (simp add: dispatch_def)

lemmas store_eval = dispatch_def call_def getState_def subscribe_def unsubscribe_def
  ensureCanMutateNextListeners_def push_def lookup_def sample_def counter_def arg_def INC_def
  rethrow_def Let_def eval_nat_numeral

text \<open>
  Claim C3.  For an action that passes the validation and a well-formed store:
  with the guard set, \<open>dispatch\<close> fails with the reentrancy error and changes nothing;
  with the guard clear, every way out of \<open>dispatch\<close> (a result or an exception, of the
  reducer or of a listener) leaves the guard clear, the first call made is that of the
  reducer, with the guard set, and every later call of a listener (a call without
  arguments) is made with the guard clear, so that a dispatch from a listener passes the
  guard and calls the reducer; when the reducer throws, its exception is the outcome and
  the guard is cleared; and whatever a callback does while the guard is set, the guard
  stays set and no reducer or listener is called, every dispatch it attempts being
  refused.
\<close>

theorem dispatch_guard_discipline:
  assumes a: "isPlainObject a" "get_prop a ''type'' = Inr t" "t \<noteq> Undefined"
    and wf: "well_formed s"
  shows "(isDispatching s \<longrightarrow>
            dispatch m (exec n env) env a s = Some (Inl err_reducers_dispatch, s)) \<and>
         (\<not> isDispatching s \<and> dispatch m (exec n env) env a s = Some (r, s') \<longrightarrow>
            \<not> isDispatching s' \<and>
            (\<exists>rest. trace s' = trace s @ (currentReducer s, [currentState s, a], True) # rest \<and>
               (\<forall>(f, args, g) \<in> set rest. g = (args \<noteq> [])))) \<and>
         (\<not> isDispatching s \<and>
          call (exec n env) env (currentReducer s) [currentState s, a] (s\<lparr>isDispatching := True\<rparr>)
            = Some (Inl e, s1) \<longrightarrow>
            dispatch m (exec n env) env a s = Some (Inl e, s1\<lparr>isDispatching := False\<rparr>)) \<and>
         (isDispatching s \<and> exec n env p s = Some (r', s'') \<longrightarrow>
            isDispatching s'' \<and> trace s'' = trace s)"
proof -
  from wf obtain f where f: "currentReducer s = Fun f" by (auto simp: well_formed_def)
  show ?thesis unfolding f
proof (intro conjI impI)
  assume "isDispatching s"
  with a show "dispatch m (exec n env) env a s = Some (Inl err_reducers_dispatch, s)"
    by (simp add: dispatch_def)
next
  assume h: "\<not> isDispatching s \<and> dispatch m (exec n env) env a s = Some (r, s')"
  then have g: "\<not> isDispatching s" and d: "dispatch m (exec n env) env a s = Some (r, s')"
    by simp_all
  note * = dispatch_trace[OF exec_calls_ok a g f d]
  from * show "\<not> isDispatching s'" by simp
  from * show "\<exists>rest. trace s' = trace s @ (Fun f, [currentState s, a], True) # rest \<and>
               (\<forall>(f, args, g) \<in> set rest. g = (args \<noteq> []))" by simp
next
  assume "\<not> isDispatching s \<and>
          call (exec n env) env (Fun f) [currentState s, a] (s\<lparr>isDispatching := True\<rparr>)
            = Some (Inl e, s1)"
  with a f show "dispatch m (exec n env) env a s = Some (Inl e, s1\<lparr>isDispatching := False\<rparr>)"
    by (simp add: dispatch_reducer_throws)
next
  assume h: "isDispatching s \<and> exec n env p s = Some (r', s'')"
  with exec_calls_ok[of n env] have "calls_ok s s''" by (auto simp: keeps_def)
  with h show "isDispatching s''" "trace s'' = trace s" by (auto simp: calls_ok_def)
qed
qed

theorem dispatch_guard_discipline_witness:
  "isPlainObject (INC 5) \<and> get_prop (INC 5) ''type'' = Inr (Str ''INC'') \<and> Str ''INC'' \<noteq> Undefined \<and>
   well_formed (listening_world (Fun 1)) \<and>
   \<not> isDispatching (listening_world (Fun 1)) \<and>
   dispatch 5 (exec 5 sample) sample (INC 5) (listening_world (Fun 1)) =
     Some (Inr (INC 5), (listening_world (Fun 1))\<lparr>currentState := Num 2,
        trace := [(Fun 0, [Num 0, INC 5], True), (Fun 1, [], False),
                  (Fun 0, [Num 1, INC 9], True), (Fun 1, [], False)]\<rparr>) \<and>
   dispatch 5 (exec 5 sample) sample (INC 5) ((listening_world (Fun 1))\<lparr>isDispatching := True\<rparr>) =
     Some (Inl err_reducers_dispatch, (listening_world (Fun 1))\<lparr>isDispatching := True\<rparr>) \<and>
   exec 5 sample (sample 5 [Num 0, INC 5]) ((listening_world (Fun 1))\<lparr>isDispatching := True\<rparr>) =
     Some (Inl err_reducers_dispatch, (listening_world (Fun 1))\<lparr>isDispatching := True\<rparr>) \<and>
   dispatch 5 (exec 5 sample) sample (INC 5) ((listening_world (Fun 1))\<lparr>currentReducer := Fun 4\<rparr>) =
     Some (Inl (Error ''boom''), (listening_world (Fun 1))\<lparr>currentReducer := Fun 4,
        trace := [(Fun 4, [Num 0, INC 5], True)]\<rparr>)"
proof -
  let ?s = "listening_world (Fun 1)"
  let ?g = "?s\<lparr>isDispatching := True\<rparr>"
  have a: "isPlainObject (INC 5)" "get_prop (INC 5) ''type'' = Inr (Str ''INC'')"
    "Str ''INC'' \<noteq> Undefined"
    by (simp_all add: INC_def lookup_def)
  have f: "well_formed ?s" and g: "\<not> isDispatching ?s"
    by (simp_all add: listening_world_def well_formed_def)
  have fg: "well_formed ?g" and gg: "isDispatching ?g"
    by (simp_all add: listening_world_def well_formed_def)
  have d: "dispatch 5 (exec 5 sample) sample (INC 5) ?s =
     Some (Inr (INC 5), ?s\<lparr>currentState := Num 2,
        trace := [(Fun 0, [Num 0, INC 5], True), (Fun 1, [], False),
                  (Fun 0, [Num 1, INC 9], True), (Fun 1, [], False)]\<rparr>)"
    by (simp add: store_eval listening_world_def)
  have re: "dispatch 5 (exec 5 sample) sample (INC 5) ?g = Some (Inl err_reducers_dispatch, ?g)"
    by (rule dispatch_guard_discipline[OF a fg, THEN conjunct1, THEN mp, OF gg])
  have ex: "exec 5 sample (sample 5 [Num 0, INC 5]) ?g = Some (Inl err_reducers_dispatch, ?g)"
    using re by (simp add: sample_def rethrow_def eval_nat_numeral INC_def dispatch_def lookup_def)
  have c: "call (exec 5 sample) sample (currentReducer (?s\<lparr>currentReducer := Fun 4\<rparr>))
             [currentState (?s\<lparr>currentReducer := Fun 4\<rparr>), INC 5]
             (?s\<lparr>currentReducer := Fun 4, isDispatching := True\<rparr>) =
           Some (Inl (Error ''boom''), ?s\<lparr>currentReducer := Fun 4, isDispatching := True,
                trace := [(Fun 4, [Num 0, INC 5], True)]\<rparr>)"
    by (simp add: call_def sample_def eval_nat_numeral listening_world_def)
  have f4: "well_formed (?s\<lparr>currentReducer := Fun 4\<rparr>)"
    and g4: "\<not> isDispatching (?s\<lparr>currentReducer := Fun 4\<rparr>)"
    by (simp_all add: listening_world_def well_formed_def)
  have "dispatch 5 (exec 5 sample) sample (INC 5) (?s\<lparr>currentReducer := Fun 4\<rparr>) =
     Some (Inl (Error ''boom''), ?s\<lparr>currentReducer := Fun 4, isDispatching := True,
        trace := [(Fun 4, [Num 0, INC 5], True)], isDispatching := False\<rparr>)"
    by (rule dispatch_guard_discipline[OF a f4, THEN conjunct2, THEN conjunct2, THEN conjunct1,
          THEN mp, OF conjI, OF g4 c])
  then have th: "dispatch 5 (exec 5 sample) sample (INC 5) (?s\<lparr>currentReducer := Fun 4\<rparr>) =
     Some (Inl (Error ''boom''), ?s\<lparr>currentReducer := Fun 4,
        trace := [(Fun 4, [Num 0, INC 5], True)]\<rparr>)"
    by (simp add: listening_world_def)
  show ?thesis
    by (intro conjI) (fact a f g d re ex th)+
qed

subsection \<open>The snapshot of the listeners\<close>

text \<open>
  No method of the store writes to an array that is \<open>frozen\<close>, and a frozen array
  stays frozen.  Again the facts are proved over an arbitrary runner first.
\<close>

lemma preserves_refl: "preserves s s"
  by (simp add: preserves_def)

lemma preserves_trans: "preserves s s' \<Longrightarrow> preserves s' s'' \<Longrightarrow> preserves s s''"
  by (simp add: preserves_def)

lemma ensure_preserves: "preserves s (ensureCanMutateNextListeners s)"
  by (auto simp: preserves_def frozen_def ensureCanMutateNextListeners_def)

lemma ensure_detached:
  "frozen X s \<Longrightarrow> nextListeners (ensureCanMutateNextListeners s) \<noteq> X \<or>
     currentListeners s \<noteq> nextListeners s"
  by (auto simp: frozen_def ensureCanMutateNextListeners_def)

lemma subscribe_preserves: "subscribe l s = (r, s') \<Longrightarrow> preserves s s'"
  by (auto simp: subscribe_def preserves_def frozen_def ensureCanMutateNextListeners_def push_def
        Let_def split: if_splits)

lemma unsubscribe_preserves: "unsubscribe u s = (r, s') \<Longrightarrow> preserves s s'"
  by (auto simp: unsubscribe_def preserves_def frozen_def ensureCanMutateNextListeners_def
        Let_def split: if_splits prod.splits)

lemma frozen_trace [simp]: "frozen X (s\<lparr>trace := t\<rparr>) = frozen X s"
  by (simp add: frozen_def)

lemma preserves_trace [simp]: "preserves (s\<lparr>trace := t\<rparr>) s' = preserves s s'"
  by (simp add: preserves_def)

lemma call_preserves:
  assumes "keeps preserves run" "call run env v args s = Some (r, s')"
  shows "preserves s s'"
proof (cases v)
  case (Fun f)
  let ?s = "s\<lparr>trace := trace s @ [(v, args, isDispatching s)]\<rparr>"
  from assms(2) Fun have "run (env f args) ?s = Some (r, s')" by (simp add: call_def)
  with assms(1) have "preserves ?s s'" unfolding keeps_def by blast
  then show ?thesis by simp
qed (use assms in \<open>auto simp: call_def preserves_refl\<close>)

lemma notify_preserves:
  assumes "keeps preserves run"
  shows "notify m run env ls i s = Some (r, s') \<Longrightarrow> preserves s s'"
proof (induction m arbitrary: i s)
  case 0
  then show ?case by (auto split: if_splits simp: preserves_refl)
next
  case (Suc m)
  show ?case
  proof (cases "i < length (arrays s ls)")
    case False
    with Suc.prems show ?thesis by (auto simp: preserves_refl)
  next
    case True
    with Suc.prems obtain r1 s1 where c: "call run env (arrays s ls ! i) [] s = Some (r1, s1)"
      by (auto split: option.splits)
    have ok1: "preserves s s1" by (rule call_preserves[OF assms c])
    show ?thesis
    proof (cases r1)
      case (Inl e)
      with c True Suc.prems ok1 show ?thesis by auto
    next
      case (Inr v)
      with c True Suc.prems have n: "notify m run env ls (Suc i) s1 = Some (r, s')" by auto
      then have "preserves s1 s'" by (rule Suc.IH)
      with ok1 show ?thesis by (rule preserves_trans)
    qed
  qed
qed

lemma snapshot_preserves:
  "preserves s (s\<lparr>currentState := v, isDispatching := b, currentListeners := nextListeners s\<rparr>)"
  by (auto simp: preserves_def frozen_def)

lemma guard_preserves: "preserves s (s\<lparr>isDispatching := b\<rparr>)"
  by (auto simp: preserves_def frozen_def)

lemma dispatch_preserves:
  assumes run: "keeps preserves run" and d: "dispatch m run env a s = Some (r, s')"
  shows "preserves s s'"
proof (cases "isPlainObject a \<and> (\<exists>t. get_prop a ''type'' = Inr t \<and> t \<noteq> Undefined) \<and> \<not> isDispatching s")
  case False
  with d have "s' = s"
    by (auto simp: dispatch_def split: if_splits sum.splits)
  then show ?thesis by (simp add: preserves_refl)
next
  case True
  let ?s0 = "s\<lparr>isDispatching := True\<rparr>"
  from True d obtain r1 s1 where
    c: "call run env (currentReducer s) [currentState s, a] ?s0 = Some (r1, s1)"
    by (auto simp: dispatch_def split: option.splits)
  have p1: "preserves s s1"
    by (rule preserves_trans[OF guard_preserves call_preserves[OF run c]])
  show ?thesis
  proof (cases r1)
    case (Inl e)
    with True d c have "s' = s1\<lparr>isDispatching := False\<rparr>"
      by (auto simp: dispatch_def)
    then have "preserves s1 s'" by (simp add: guard_preserves)
    with p1 show ?thesis by (rule preserves_trans)
  next
    case (Inr v)
    let ?s3 = "s1\<lparr>currentState := v, isDispatching := False, currentListeners := nextListeners s1\<rparr>"
    from True d c Inr obtain r4 where
      n: "notify m run env (nextListeners s1) 0 ?s3 = Some (r4, s')"
      by (auto simp: dispatch_def Let_def split: option.splits sum.splits)
    have "preserves ?s3 s'" by (rule notify_preserves[OF run n])
    with snapshot_preserves have "preserves s1 s'" by (rule preserves_trans)
    with p1 show ?thesis by (rule preserves_trans)
  qed
qed

lemma replaceReducer_preserves:
  assumes run: "keeps preserves run" and d: "replaceReducer m run env nr s = Some (r, s')"
  shows "preserves s s'"
proof (cases "typeof nr = ''function''")
  case False
  with d have "s' = s" by (simp add: replaceReducer_def)
  then show ?thesis by (simp add: preserves_refl)
next
  case True
  let ?s2 = "s\<lparr>currentReducer := nr, fresh := Suc (fresh s)\<rparr>"
  from True d obtain r1 where "dispatch m run env (INIT_action (fresh s)) ?s2 = Some (r1, s')"
    by (auto simp: replaceReducer_def Let_def split: option.splits sum.splits)
  from dispatch_preserves[OF run this] have "preserves ?s2 s'" .
  moreover have "preserves s ?s2" by (auto simp: preserves_def frozen_def)
  ultimately show ?thesis by (rule preserves_trans[rotated])
qed

lemma exec_preserves: "keeps preserves (exec n env)"
proof (induction n)
  case 0
  show ?case by (simp add: keeps_def)
next
  case (Suc n)
  then have ih: "\<And>p s r s'. exec n env p s = Some (r, s') \<Longrightarrow> preserves s s'"
    by (simp add: keeps_def)
  show ?case
    unfolding keeps_def
  proof (intro allI impI)
    fix p s r s'
    assume e: "exec (Suc n) env p s = Some (r, s')"
    show "preserves s s'"
    proof (cases p)
      case (Return v)
      with e show ?thesis by (auto simp: preserves_refl)
    next
      case (Throw x)
      with e show ?thesis by (auto simp: preserves_refl)
    next
      case (GetState k)
      with e ih show ?thesis by auto
    next
      case (Dispatch a k)
      with e obtain r1 s1 where d: "dispatch n (exec n env) env a s = Some (r1, s1)"
        and k: "exec n env (k r1) s1 = Some (r, s')"
        by (auto split: option.splits)
      from dispatch_preserves[OF Suc d] ih[OF k] show ?thesis
        by (rule preserves_trans)
    next
      case (Subscribe l k)
      with e obtain r1 s1 where d: "subscribe l s = (r1, s1)"
        and k: "exec n env (k r1) s1 = Some (r, s')"
        by (auto split: prod.splits)
      from subscribe_preserves[OF d] ih[OF k] show ?thesis
        by (rule preserves_trans)
    next
      case (Unsubscribe u q)
      obtain r1 s1 where d: "unsubscribe u s = (r1, s1)" by (cases "unsubscribe u s")
      note ok = unsubscribe_preserves[OF d]
      show ?thesis
      proof (cases r1)
        case (Inl x)
        with e d Unsubscribe ok show ?thesis by auto
      next
        case (Inr v)
        with e d Unsubscribe have "exec n env q s1 = Some (r, s')" by auto
        from ok ih[OF this] show ?thesis by (rule preserves_trans)
      qed
    next
      case (ReplaceReducer nr k)
      with e obtain r1 s1 where d: "replaceReducer n (exec n env) env nr s = Some (r1, s1)"
        and k: "exec n env (k r1) s1 = Some (r, s')"
        by (auto split: option.splits)
      from replaceReducer_preserves[OF Suc d] ih[OF k] show ?thesis
        by (rule preserves_trans)
    qed
  qed
qed

lemma notify_invoke_each:
  assumes run: "keeps preserves run"
  shows "frozen X s \<Longrightarrow> notify m run env X i s = invoke_each m run env (drop i (arrays s X)) s"
proof (induction m arbitrary: i s)
  case 0
  show ?case
  proof (cases "i < length (arrays s X)")
    case True
    then have "drop i (arrays s X) = arrays s X ! i # drop (Suc i) (arrays s X)"
      by (simp add: Cons_nth_drop_Suc)
    with True show ?thesis by simp
  next
    case False
    then show ?thesis by simp
  qed
next
  case (Suc m)
  show ?case
  proof (cases "i < length (arrays s X)")
    case False
    then show ?thesis by simp
  next
    case True
    then have dr: "drop i (arrays s X) = arrays s X ! i # drop (Suc i) (arrays s X)"
      by (simp add: Cons_nth_drop_Suc)
    show ?thesis
    proof (cases "call run env (arrays s X ! i) [] s")
      case None
      with True dr show ?thesis by simp
    next
      case (Some a)
      obtain r1 s1 where a: "a = (r1, s1)" by (cases a)
      from call_preserves[OF run Some[unfolded a]] Suc.prems
      have f1: "frozen X s1" and eq: "arrays s1 X = arrays s X"
        by (auto simp: preserves_def)
      have l: "notify (Suc m) run env X i s =
          (case r1 of Inl e \<Rightarrow> Some (Inl e, s1) | Inr v \<Rightarrow> notify m run env X (Suc i) s1)"
        using True Some a by (simp split: sum.splits)
      have r: "invoke_each (Suc m) run env (drop i (arrays s X)) s =
          (case r1 of Inl e \<Rightarrow> Some (Inl e, s1)
           | Inr v \<Rightarrow> invoke_each m run env (drop (Suc i) (arrays s X)) s1)"
        by (subst dr) (simp add: Some a split: sum.splits)
      have "notify m run env X (Suc i) s1 = invoke_each m run env (drop (Suc i) (arrays s X)) s1"
        using Suc.IH[OF f1, of "Suc i"] eq by simp
      with l r show ?thesis by (simp split: sum.splits)
    qed
  qed
qed

lemma frozen_isDispatching [simp]: "frozen X (s\<lparr>isDispatching := b\<rparr>) = frozen X s"
  by (simp add: frozen_def)

lemma unsubscribe_next:
  assumes "u < length (closures w)" "closures w ! u = (l, True)" "unsubscribe u w = (r, w')"
  shows "arrays w' (nextListeners w') =
           splice1 (indexOf (arrays w (nextListeners w)) l) (arrays w (nextListeners w))"
  using assms by (auto simp: unsubscribe_def ensureCanMutateNextListeners_def Let_def)

lemma subscribe_next:
  "subscribe (Fun l) w = (r, w') \<Longrightarrow>
     arrays w' (nextListeners w') = arrays w (nextListeners w) @ [Fun l]"
  by (auto simp: subscribe_def ensureCanMutateNextListeners_def push_def Let_def)

lemma indexOf_Fun:
  "Fun f \<in> set xs \<Longrightarrow>
     0 \<le> indexOf xs (Fun f) \<and> nat (indexOf xs (Fun f)) < length xs \<and>
     xs ! nat (indexOf xs (Fun f)) = Fun f"
proof (induction xs)
  case Nil
  then show ?case by simp
next
  case (Cons x xs)
  show ?case
  proof (cases "x = Fun f")
    case True
    then show ?thesis by simp
  next
    case False
    with Cons.prems have "Fun f \<in> set xs" by simp
    from Cons.IH[OF this] False show ?thesis
      by (simp add: Let_def nat_add_distrib)
  qed
qed

lemma listed_updates [simp]:
  "listed (s\<lparr>trace := t\<rparr>) = listed s"
  "listed (s\<lparr>isDispatching := b\<rparr>) = listed s"
  "listed (s\<lparr>currentState := v\<rparr>) = listed s"
  "listed (s\<lparr>currentListeners := c\<rparr>) = listed s"
  "listed (s\<lparr>currentReducer := v\<rparr>) = listed s"
  "listed (s\<lparr>fresh := n\<rparr>) = listed s"
  by (simp_all add: listed_def)

lemma remove1_splice1:
  "Fun f \<in> set xs \<Longrightarrow> splice1 (indexOf xs (Fun f)) xs = remove1 (Fun f) xs"
proof (induction xs)
  case Nil
  then show ?case by simp
next
  case (Cons x xs)
  show ?case
  proof (cases "x = Fun f")
    case True
    then show ?thesis by (simp add: splice1_def)
  next
    case False
    with Cons.prems have m: "Fun f \<in> set xs" by simp
    from indexOf_Fun[OF m] have i: "0 \<le> indexOf xs (Fun f)" "nat (indexOf xs (Fun f)) < length xs"
      by simp_all
    then have le: "indexOf xs (Fun f) \<le> int (length xs)" by linarith
    from Cons.IH[OF m] i le have "take (nat (indexOf xs (Fun f))) xs @ drop (Suc (nat (indexOf xs (Fun f)))) xs
        = remove1 (Fun f) xs"
      by (simp add: splice1_def Let_def min_def)
    with False i le show ?thesis
      by (simp add: splice1_def Let_def min_def nat_add_distrib)
  qed
qed

lemma count_list_remove1:
  "count_list (remove1 x xs) y = (if x = y \<and> x \<in> set xs then count_list xs y - 1 else count_list xs y)"
  by (induction xs) auto

lemma count_list_update:
  "u < length xs \<Longrightarrow>
   count_list (xs[u := y]) z + (if xs ! u = z then 1 else 0) = count_list xs z + (if y = z then 1 else 0)"
proof (induction xs arbitrary: u)
  case Nil
  then show ?case by simp
next
  case (Cons x xs)
  show ?case
  proof (cases u)
    case 0
    then show ?thesis by simp
  next
    case (Suc n)
    with Cons.prems have "n < length xs" by simp
    from Cons.IH[OF this] Suc show ?thesis by (simp split: if_splits)
  qed
qed

lemma listed_member:
  assumes "listed s" "u < length (closures s)" "closures s ! u = (l, True)"
  shows "l \<in> set (arrays s (nextListeners s)) \<and> (\<exists>f. l = Fun f)"
proof -
  from assms(2,3) have m: "(l, True) \<in> set (closures s)" by (metis nth_mem)
  then have "count_list (closures s) (l, True) \<noteq> 0" by (simp add: count_list_0_iff)
  with assms(1) have "count_list (arrays s (nextListeners s)) l \<noteq> 0"
    unfolding listed_def by (metis le_zero_eq)
  moreover from assms(1) m have "typeof (fst (l, True)) = ''function''" unfolding listed_def by blast
  ultimately show ?thesis by (simp add: count_list_0_iff)
qed

lemma subscribe_stays: "subscribe l s = (r, s') \<Longrightarrow> stays s s'"
  by (auto simp: subscribe_def stays_def listed_def ensureCanMutateNextListeners_def push_def
        Let_def split: if_splits)

lemma unsubscribe_next_remove1:
  assumes "listed w" "u < length (closures w)" "closures w ! u = (l, True)"
    "unsubscribe u w = (r, w')"
  shows "arrays w' (nextListeners w') = remove1 l (arrays w (nextListeners w))"
    and "closures w' = (closures w)[u := (l, False)]"
proof -
  from listed_member[OF assms(1-3)] obtain f where l: "l = Fun f"
    and m: "Fun f \<in> set (arrays w (nextListeners w))" by auto
  from unsubscribe_next[OF assms(2,3,4)] remove1_splice1[OF m] l
  show "arrays w' (nextListeners w') = remove1 l (arrays w (nextListeners w))" by simp
  from assms(2,3,4) show "closures w' = (closures w)[u := (l, False)]"
    by (auto simp: unsubscribe_def ensureCanMutateNextListeners_def Let_def)
qed

lemma unsubscribe_stays: "unsubscribe u s = (r, s') \<Longrightarrow> stays s s'"
proof (cases "u < length (closures s) \<and> snd (closures s ! u)")
  case False
  assume "unsubscribe u s = (r, s')"
  with False have "s' = s"
    by (auto simp: unsubscribe_def Let_def split: if_splits prod.splits)
  then show ?thesis by (simp add: stays_def)
next
  case True
  assume un: "unsubscribe u s = (r, s')"
  from True obtain l where c: "closures s ! u = (l, True)" and u: "u < length (closures s)"
    by (cases "closures s ! u") auto
  show ?thesis
    unfolding stays_def
  proof
    assume li: "listed s"
    note n = unsubscribe_next_remove1[OF li u c un]
    from listed_member[OF li u c] have m: "l \<in> set (arrays s (nextListeners s))" by simp
    have cnt: "count_list (closures s') (l', True) \<le> count_list (arrays s' (nextListeners s')) l'" for l'
    proof -
      from count_list_update[OF u, of "(l, False)" "(l', True)"] c
      have "count_list (closures s') (l', True) + (if l = l' then 1 else 0)
              = count_list (closures s) (l', True)"
        by (simp add: n(2))
      moreover have "count_list (arrays s' (nextListeners s')) l' + (if l = l' then 1 else 0)
              = count_list (arrays s (nextListeners s)) l'"
        using m by (auto simp: n(1) count_list_remove1 count_list_0_iff Suc_pred' neq0_conv[symmetric])
      moreover from li have "count_list (closures s) (l', True) \<le> count_list (arrays s (nextListeners s)) l'"
        by (simp add: listed_def)
      ultimately show ?thesis by linarith
    qed
    have "\<forall>c \<in> set (closures s'). typeof (fst c) = ''function''"
    proof
      fix c' assume "c' \<in> set (closures s')"
      then have "c' \<in> insert (l, False) (set (closures s))"
        using set_update_subset_insert[of "closures s" u "(l, False)"] by (auto simp: n(2))
      moreover from u c have "(l, True) \<in> set (closures s)" by (metis nth_mem)
      ultimately show "typeof (fst c') = ''function''" using li unfolding listed_def by force
    qed
    with cnt show "listed s'" by (simp add: listed_def)
  qed
qed

lemma stays_trans: "stays s s' \<Longrightarrow> stays s' s'' \<Longrightarrow> stays s s''"
  by (simp add: stays_def)

lemma call_stays:
  assumes "keeps stays run" "call run env v args s = Some (r, s')"
  shows "stays s s'"
proof (cases v)
  case (Fun f)
  let ?s = "s\<lparr>trace := trace s @ [(v, args, isDispatching s)]\<rparr>"
  from assms(2) Fun have "run (env f args) ?s = Some (r, s')" by (simp add: call_def)
  with assms(1) have "stays ?s s'" unfolding keeps_def by blast
  then show ?thesis by (simp add: stays_def)
qed (use assms in \<open>auto simp: call_def stays_def\<close>)

lemma notify_stays:
  assumes "keeps stays run"
  shows "notify m run env ls i s = Some (r, s') \<Longrightarrow> stays s s'"
proof (induction m arbitrary: i s)
  case 0
  then show ?case by (auto split: if_splits simp: stays_def)
next
  case (Suc m)
  show ?case
  proof (cases "i < length (arrays s ls)")
    case False
    with Suc.prems show ?thesis by (auto simp: stays_def)
  next
    case True
    with Suc.prems obtain r1 s1 where c: "call run env (arrays s ls ! i) [] s = Some (r1, s1)"
      by (auto split: option.splits)
    have ok1: "stays s s1" by (rule call_stays[OF assms c])
    show ?thesis
    proof (cases r1)
      case (Inl e)
      with c True Suc.prems ok1 show ?thesis by auto
    next
      case (Inr v)
      with c True Suc.prems have n: "notify m run env ls (Suc i) s1 = Some (r, s')" by auto
      then have "stays s1 s'" by (rule Suc.IH)
      with ok1 show ?thesis by (rule stays_trans)
    qed
  qed
qed

lemma dispatch_stays:
  assumes run: "keeps stays run" and d: "dispatch m run env a s = Some (r, s')"
  shows "stays s s'"
proof (cases "isPlainObject a \<and> (\<exists>t. get_prop a ''type'' = Inr t \<and> t \<noteq> Undefined) \<and> \<not> isDispatching s")
  case False
  with d have "s' = s"
    by (auto simp: dispatch_def split: if_splits sum.splits)
  then show ?thesis by (simp add: stays_def)
next
  case True
  let ?s0 = "s\<lparr>isDispatching := True\<rparr>"
  from True d obtain r1 s1 where
    c: "call run env (currentReducer s) [currentState s, a] ?s0 = Some (r1, s1)"
    by (auto simp: dispatch_def split: option.splits)
  from call_stays[OF run c] have p1: "stays s s1" by (simp add: stays_def)
  show ?thesis
  proof (cases r1)
    case (Inl e)
    with True d c have "s' = s1\<lparr>isDispatching := False\<rparr>"
      by (auto simp: dispatch_def)
    with p1 show ?thesis by (simp add: stays_def)
  next
    case (Inr v)
    let ?s3 = "s1\<lparr>currentState := v, isDispatching := False, currentListeners := nextListeners s1\<rparr>"
    from True d c Inr obtain r4 where
      n: "notify m run env (nextListeners s1) 0 ?s3 = Some (r4, s')"
      by (auto simp: dispatch_def Let_def split: option.splits sum.splits)
    have "stays ?s3 s'" by (rule notify_stays[OF run n])
    with p1 show ?thesis by (simp add: stays_def)
  qed
qed

lemma replaceReducer_stays:
  assumes run: "keeps stays run" and d: "replaceReducer m run env nr s = Some (r, s')"
  shows "stays s s'"
proof (cases "typeof nr = ''function''")
  case False
  with d have "s' = s" by (simp add: replaceReducer_def)
  then show ?thesis by (simp add: stays_def)
next
  case True
  let ?s2 = "s\<lparr>currentReducer := nr, fresh := Suc (fresh s)\<rparr>"
  from True d obtain r1 where "dispatch m run env (INIT_action (fresh s)) ?s2 = Some (r1, s')"
    by (auto simp: replaceReducer_def Let_def split: option.splits sum.splits)
  from dispatch_stays[OF run this] True show ?thesis by (simp add: stays_def)
qed

lemma exec_stays: "keeps stays (exec n env)"
proof (induction n)
  case 0
  show ?case by (simp add: keeps_def)
next
  case (Suc n)
  then have ih: "\<And>p s r s'. exec n env p s = Some (r, s') \<Longrightarrow> stays s s'"
    by (simp add: keeps_def)
  show ?case
    unfolding keeps_def
  proof (intro allI impI)
    fix p s r s'
    assume e: "exec (Suc n) env p s = Some (r, s')"
    show "stays s s'"
    proof (cases p)
      case (Return v)
      with e show ?thesis by (auto simp: stays_def)
    next
      case (Throw x)
      with e show ?thesis by (auto simp: stays_def)
    next
      case (GetState k)
      with e ih show ?thesis by auto
    next
      case (Dispatch a k)
      with e obtain r1 s1 where d: "dispatch n (exec n env) env a s = Some (r1, s1)"
        and k: "exec n env (k r1) s1 = Some (r, s')"
        by (auto split: option.splits)
      from dispatch_stays[OF Suc d] ih[OF k] show ?thesis
        by (rule stays_trans)
    next
      case (Subscribe l k)
      with e obtain r1 s1 where d: "subscribe l s = (r1, s1)"
        and k: "exec n env (k r1) s1 = Some (r, s')"
        by (auto split: prod.splits)
      from subscribe_stays[OF d] ih[OF k] show ?thesis
        by (rule stays_trans)
    next
      case (Unsubscribe u q)
      obtain r1 s1 where d: "unsubscribe u s = (r1, s1)" by (cases "unsubscribe u s")
      note ok = unsubscribe_stays[OF d]
      show ?thesis
      proof (cases r1)
        case (Inl x)
        with e d Unsubscribe ok show ?thesis by auto
      next
        case (Inr v)
        with e d Unsubscribe have "exec n env q s1 = Some (r, s')" by auto
        from ok ih[OF this] show ?thesis by (rule stays_trans)
      qed
    next
      case (ReplaceReducer nr k)
      with e obtain r1 s1 where d: "replaceReducer n (exec n env) env nr s = Some (r1, s1)"
        and k: "exec n env (k r1) s1 = Some (r, s')"
        by (auto split: option.splits)
      from replaceReducer_stays[OF Suc d] ih[OF k] show ?thesis
        by (rule stays_trans)
    qed
  qed
qed

lemma createStore_listed:
  assumes "createStore n env h reducer P E = Some (Inr (Store w))"
  shows "listed w"
proof -
  let ?P = "if typeof P = ''function'' \<and> typeof E = ''undefined'' then Undefined else P"
  let ?s = "\<lparr>currentReducer = reducer, currentState = ?P,
                 currentListeners = h, nextListeners = h, isDispatching = False,
                 arrays = (\<lambda>a. []), fresh = Suc (Suc h), closures = [], trace = []\<rparr>"
  from assms obtain a where "store_dispatch n env (INIT_action (Suc h)) ?s = Some (Inr a, w)"
    by (auto simp: createStore_def Let_def split: if_splits option.splits sum.splits prod.splits)
  then have "dispatch n (exec n env) env (INIT_action (Suc h)) ?s = Some (Inr a, w)"
    by (simp add: store_dispatch_def)
  from dispatch_stays[OF exec_stays this] have "stays ?s w" .
  moreover have "listed ?s" by (simp add: listed_def)
  ultimately show ?thesis by (simp add: stays_def)
qed

text \<open>
  Claim C2.  Take a dispatch of an action that passes the validation, in a well-formed
  store, whose reducer call returns \<open>v\<close> and leaves the world \<open>s1\<close>.  The
  dispatch then stores \<open>v\<close>, clears the guard, makes \<open>currentListeners\<close> the array \<open>X\<close>
  that \<open>nextListeners\<close> refers to, and its loop over that array does what invoking each
  listener of the list found there at that moment, in order and without arguments,
  does.  The array \<open>X\<close> is frozen from then on: nothing a listener does (subscribing,
  unsubscribing, dispatching) changes it, and it still holds the same list when the
  dispatch is over.  \<open>subscribe\<close> and \<open>unsubscribe\<close> write to the array \<open>nextListeners\<close>
  refers to afterwards, a copy, which is the array the next dispatch takes as snapshot.
  In a store whose \<open>unsubscribe\<close> closures agree with that list (\<open>listed\<close>, kept by
  everything a callback can do), the listener of a closure that is still subscribed is
  in the list, and calling the closure removes its first occurrence from the list the
  next dispatch takes as snapshot and marks the closure as unsubscribed.  Every store
  that \<open>createStore\<close> returns is such a store.
\<close>

theorem dispatch_notifies_snapshot:
  assumes wf: "well_formed s"
    and a: "isPlainObject a" "get_prop a ''type'' = Inr t" "t \<noteq> Undefined"
    and g: "\<not> isDispatching s"
    and red: "call (exec n env) env (currentReducer s) [currentState s, a]
                (s\<lparr>isDispatching := True\<rparr>) = Some (Inr v, s1)"
    and s3: "s3 = s1\<lparr>currentState := v, isDispatching := False,
                     currentListeners := nextListeners s1\<rparr>"
    and X: "X = nextListeners s1"
  shows "dispatch m (exec n env) env a s =
           (case invoke_each m (exec n env) env (arrays s3 X) s3 of
              None \<Rightarrow> None
            | Some (Inl e, s4) \<Rightarrow> Some (Inl e, s4)
            | Some (Inr u, s4) \<Rightarrow> Some (Inr a, s4)) \<and>
         currentListeners s3 = X \<and> frozen X s3 \<and>
         (\<forall>r s'. dispatch m (exec n env) env a s = Some (r, s') \<longrightarrow> arrays s' X = arrays s3 X) \<and>
         (\<forall>k p w r w'. frozen X w \<and> exec k env p w = Some (r, w') \<longrightarrow>
            frozen X w' \<and> arrays w' X = arrays w X) \<and>
         (\<forall>l w r w'. frozen X w \<and> subscribe (Fun l) w = (r, w') \<longrightarrow>
            frozen X w' \<and> arrays w' X = arrays w X \<and>
            arrays w' (nextListeners w') = arrays w (nextListeners w) @ [Fun l]) \<and>
         (\<forall>u l w r w'. frozen X w \<and> u < length (closures w) \<and> closures w ! u = (l, True) \<and>
            unsubscribe u w = (r, w') \<longrightarrow>
            frozen X w' \<and> arrays w' X = arrays w X \<and>
            arrays w' (nextListeners w') =
              splice1 (indexOf (arrays w (nextListeners w)) l) (arrays w (nextListeners w))) \<and>
         (\<forall>k p w r w'. listed w \<and> exec k env p w = Some (r, w') \<longrightarrow> listed w') \<and>
         (\<forall>u l w r w'. listed w \<and> u < length (closures w) \<and> closures w ! u = (l, True) \<and>
            unsubscribe u w = (r, w') \<longrightarrow>
            l \<in> set (arrays w (nextListeners w)) \<and>
            arrays w' (nextListeners w') = remove1 l (arrays w (nextListeners w)) \<and>
            closures w' = (closures w)[u := (l, False)] \<and> listed w') \<and>
         (\<forall>k h reducer P E w. createStore k env h reducer P E = Some (Inr (Store w)) \<longrightarrow>
            listed w)"
proof -
  have run: "keeps preserves (exec n env)" by (rule exec_preserves)
  from wf have "frozen (currentListeners s) (s\<lparr>isDispatching := True\<rparr>)"
    by (simp add: frozen_def well_formed_def)
  with call_preserves[OF run red] have "frozen (currentListeners s) s1"
    by (simp add: preserves_def)
  then have fr: "frozen X s3" and cur: "currentListeners s3 = X"
    by (simp_all add: frozen_def s3 X)
  have n: "notify m (exec n env) env X 0 s3 = invoke_each m (exec n env) env (arrays s3 X) s3"
    using notify_invoke_each[OF run fr, of m env 0] by simp
  have d: "dispatch m (exec n env) env a s =
           (case notify m (exec n env) env X 0 s3 of
              None \<Rightarrow> None
            | Some (Inl e, s4) \<Rightarrow> Some (Inl e, s4)
            | Some (Inr u, s4) \<Rightarrow> Some (Inr a, s4))"
    using a g red by (simp add: dispatch_def s3 X Let_def)
  have main: "dispatch m (exec n env) env a s =
           (case invoke_each m (exec n env) env (arrays s3 X) s3 of
              None \<Rightarrow> None
            | Some (Inl e, s4) \<Rightarrow> Some (Inl e, s4)
            | Some (Inr u, s4) \<Rightarrow> Some (Inr a, s4))"
    by (simp only: d n)
  have fin: "\<forall>r s'. dispatch m (exec n env) env a s = Some (r, s') \<longrightarrow> arrays s' X = arrays s3 X"
  proof (intro allI impI)
    fix r s'
    assume "dispatch m (exec n env) env a s = Some (r, s')"
    with d obtain r4 where "notify m (exec n env) env X 0 s3 = Some (r4, s')"
      by (auto split: option.splits sum.splits)
    from notify_preserves[OF run this] have "preserves s3 s'" .
    with fr show "arrays s' X = arrays s3 X" unfolding preserves_def by blast
  qed
  have ex: "\<forall>k p w r w'. frozen X w \<and> exec k env p w = Some (r, w') \<longrightarrow>
            frozen X w' \<and> arrays w' X = arrays w X"
  proof (intro allI impI)
    fix k p w r w'
    assume h: "frozen X w \<and> exec k env p w = Some (r, w')"
    with exec_preserves[of k env] have "preserves w w'" unfolding keeps_def by blast
    with h show "frozen X w' \<and> arrays w' X = arrays w X" unfolding preserves_def by blast
  qed
  have sub: "\<forall>l w r w'. frozen X w \<and> subscribe (Fun l) w = (r, w') \<longrightarrow>
            frozen X w' \<and> arrays w' X = arrays w X \<and>
            arrays w' (nextListeners w') = arrays w (nextListeners w) @ [Fun l]"
  proof (intro allI impI)
    fix l w r w'
    assume h: "frozen X w \<and> subscribe (Fun l) w = (r, w')"
    then have "preserves w w'" by (blast intro: subscribe_preserves)
    with h have "frozen X w' \<and> arrays w' X = arrays w X" unfolding preserves_def by blast
    moreover from h have "arrays w' (nextListeners w') = arrays w (nextListeners w) @ [Fun l]"
      by (blast intro: subscribe_next)
    ultimately show "frozen X w' \<and> arrays w' X = arrays w X \<and>
            arrays w' (nextListeners w') = arrays w (nextListeners w) @ [Fun l]" by blast
  qed
  have unsub: "\<forall>u l w r w'. frozen X w \<and> u < length (closures w) \<and> closures w ! u = (l, True) \<and>
            unsubscribe u w = (r, w') \<longrightarrow>
            frozen X w' \<and> arrays w' X = arrays w X \<and>
            arrays w' (nextListeners w') =
              splice1 (indexOf (arrays w (nextListeners w)) l) (arrays w (nextListeners w))"
  proof (intro allI impI)
    fix u l w r w'
    assume h: "frozen X w \<and> u < length (closures w) \<and> closures w ! u = (l, True) \<and>
            unsubscribe u w = (r, w')"
    then have "preserves w w'" by (blast intro: unsubscribe_preserves)
    with h have "frozen X w' \<and> arrays w' X = arrays w X" unfolding preserves_def by blast
    moreover from h have "arrays w' (nextListeners w') =
              splice1 (indexOf (arrays w (nextListeners w)) l) (arrays w (nextListeners w))"
      by (blast intro: unsubscribe_next)
    ultimately show "frozen X w' \<and> arrays w' X = arrays w X \<and>
            arrays w' (nextListeners w') =
              splice1 (indexOf (arrays w (nextListeners w)) l) (arrays w (nextListeners w))"
      by blast
  qed
  have li: "\<forall>k p w r w'. listed w \<and> exec k env p w = Some (r, w') \<longrightarrow> listed w'"
  proof (intro allI impI)
    fix k p w r w'
    assume h: "listed w \<and> exec k env p w = Some (r, w')"
    with exec_stays[of k env] have "stays w w'" unfolding keeps_def by blast
    with h show "listed w'" by (simp add: stays_def)
  qed
  have rem: "\<forall>u l w r w'. listed w \<and> u < length (closures w) \<and> closures w ! u = (l, True) \<and>
            unsubscribe u w = (r, w') \<longrightarrow>
            l \<in> set (arrays w (nextListeners w)) \<and>
            arrays w' (nextListeners w') = remove1 l (arrays w (nextListeners w)) \<and>
            closures w' = (closures w)[u := (l, False)] \<and> listed w'"
  proof (intro allI impI)
    fix u l w r w'
    assume h: "listed w \<and> u < length (closures w) \<and> closures w ! u = (l, True) \<and>
            unsubscribe u w = (r, w')"
    then have a1: "listed w" and a2: "u < length (closures w)"
      and a3: "closures w ! u = (l, True)" and a4: "unsubscribe u w = (r, w')"
      by simp_all
    from unsubscribe_stays[OF a4] a1 have "listed w'" by (simp add: stays_def)
    with listed_member[OF a1 a2 a3] unsubscribe_next_remove1[OF a1 a2 a3 a4]
    show "l \<in> set (arrays w (nextListeners w)) \<and>
            arrays w' (nextListeners w') = remove1 l (arrays w (nextListeners w)) \<and>
            closures w' = (closures w)[u := (l, False)] \<and> listed w'"
      by simp
  qed
  have cr: "\<forall>k h reducer P E w. createStore k env h reducer P E = Some (Inr (Store w)) \<longrightarrow>
            listed w"
    by (blast intro: createStore_listed)
  show ?thesis
    by (intro conjI) (fact main cur fr fin ex sub unsub li rem cr)+
qed

theorem dispatch_notifies_snapshot_witness:
  "well_formed (listening_world (Fun 2)) \<and>
   isPlainObject (INC 5) \<and> get_prop (INC 5) ''type'' = Inr (Str ''INC'') \<and> Str ''INC'' \<noteq> Undefined \<and>
   \<not> isDispatching (listening_world (Fun 2)) \<and>
   call (exec 5 sample) sample (currentReducer (listening_world (Fun 2)))
     [currentState (listening_world (Fun 2)), INC 5]
     ((listening_world (Fun 2))\<lparr>isDispatching := True\<rparr>) =
     Some (Inr (Num 1), (listening_world (Fun 2))\<lparr>isDispatching := True,
        trace := [(Fun 0, [Num 0, INC 5], True)]\<rparr>) \<and>
   (\<exists>w'. dispatch 5 (exec 5 sample) sample (INC 5) (listening_world (Fun 2)) =
            Some (Inr (INC 5), w') \<and>
         arrays w' 0 = [Fun 2] \<and> currentListeners w' = 0 \<and> nextListeners w' = 1 \<and>
         arrays w' (nextListeners w') = [Fun 2, Fun 3]) \<and>
   map_option trace (dispatch_all 5 sample [INC 5, INC 6] (listening_world (Fun 2))) =
     Some [(Fun 0, [Num 0, INC 5], True), (Fun 2, [], False),
           (Fun 0, [Num 1, INC 6], True), (Fun 2, [], False), (Fun 3, [], False)] \<and>
   1 < length (closures unsubscribing_world) \<and>
   closures unsubscribing_world ! 1 = (Fun 3, True) \<and>
   (\<exists>w'. unsubscribe 1 unsubscribing_world = (Inr Undefined, w') \<and>
         Fun 3 \<in> set (arrays unsubscribing_world (nextListeners unsubscribing_world)) \<and>
         arrays w' (nextListeners w') = [Fun 7] \<and>
         closures w' = [(Fun 7, True), (Fun 3, False)]) \<and>
   map_option trace (dispatch_all 5 sample [INC 5, INC 6] unsubscribing_world) =
     Some [(Fun 0, [Num 0, INC 5], True), (Fun 7, [], False), (Fun 3, [], False),
           (Fun 0, [Num 1, INC 6], True), (Fun 7, [], False)] \<and>
   map_option (\<lambda>w. arrays w (nextListeners w))
       (dispatch_all 5 sample [INC 5, INC 6] unsubscribing_world) = Some [Fun 7]"
proof -
  let ?s = "listening_world (Fun 2)"
  let ?u = unsubscribing_world
  let ?s1 = "?s\<lparr>isDispatching := True, trace := [(Fun 0, [Num 0, INC 5], True)]\<rparr>"
  have wf: "well_formed ?s"
    by (simp add: listening_world_def well_formed_def)
  have a: "isPlainObject (INC 5)" "get_prop (INC 5) ''type'' = Inr (Str ''INC'')"
    "Str ''INC'' \<noteq> Undefined"
    by (simp_all add: INC_def lookup_def)
  have g: "\<not> isDispatching ?s" by (simp add: listening_world_def)
  have red: "call (exec 5 sample) sample (currentReducer ?s) [currentState ?s, INC 5]
               (?s\<lparr>isDispatching := True\<rparr>) = Some (Inr (Num 1), ?s1)"
    by (simp add: store_eval listening_world_def)
  note all = dispatch_notifies_snapshot[OF wf a g red refl refl, of 5]
  note gone = all[THEN conjunct2, THEN conjunct2, THEN conjunct2, THEN conjunct2,
    THEN conjunct2, THEN conjunct2, THEN conjunct2, THEN conjunct2, THEN conjunct1,
    rule_format]
  have li: "listed ?u"
    by (simp add: listed_def unsubscribing_world_def)
  have u1: "1 < length (closures ?u)" and u2: "closures ?u ! 1 = (Fun 3, True)"
    by (simp_all add: unsubscribing_world_def)
  obtain r w' where un: "unsubscribe 1 ?u = (r, w')"
    by (cases "unsubscribe 1 ?u") blast
  from un have r: "r = Inr Undefined"
    by (auto simp add: store_eval unsubscribing_world_def split: if_splits)
  from gone[OF conjI[OF li conjI[OF u1 conjI[OF u2 un]]]]
  have "Fun 3 \<in> set (arrays ?u (nextListeners ?u)) \<and>
        arrays w' (nextListeners w') = remove1 (Fun 3) (arrays ?u (nextListeners ?u)) \<and>
        closures w' = (closures ?u)[1 := (Fun 3, False)]"
    by blast
  then have "Fun 3 \<in> set (arrays ?u (nextListeners ?u)) \<and>
        arrays w' (nextListeners w') = [Fun 7] \<and>
        closures w' = [(Fun 7, True), (Fun 3, False)]"
    by (simp add: unsubscribing_world_def)
  with un r have off: "\<exists>w'. unsubscribe 1 ?u = (Inr Undefined, w') \<and>
         Fun 3 \<in> set (arrays ?u (nextListeners ?u)) \<and>
         arrays w' (nextListeners w') = [Fun 7] \<and>
         closures w' = [(Fun 7, True), (Fun 3, False)]"
    by blast
  have t1: "map_option trace (dispatch_all 5 sample [INC 5, INC 6] ?s) =
     Some [(Fun 0, [Num 0, INC 5], True), (Fun 2, [], False),
           (Fun 0, [Num 1, INC 6], True), (Fun 2, [], False), (Fun 3, [], False)]"
    by (simp add: store_dispatch_def store_eval listening_world_def)
  have t2: "map_option trace (dispatch_all 5 sample [INC 5, INC 6] ?u) =
     Some [(Fun 0, [Num 0, INC 5], True), (Fun 7, [], False), (Fun 3, [], False),
           (Fun 0, [Num 1, INC 6], True), (Fun 7, [], False)]"
    by (simp add: store_dispatch_def store_eval splice1_def unsubscribing_world_def)
  have t3: "map_option (\<lambda>w. arrays w (nextListeners w))
       (dispatch_all 5 sample [INC 5, INC 6] ?u) = Some [Fun 7]"
    by (simp add: store_dispatch_def store_eval splice1_def unsubscribing_world_def)
  from all
  have "dispatch 5 (exec 5 sample) sample (INC 5) ?s =
          (case invoke_each 5 (exec 5 sample) sample
                  (arrays (?s1\<lparr>currentState := Num 1, isDispatching := False,
                              currentListeners := nextListeners ?s1\<rparr>) (nextListeners ?s1))
                  (?s1\<lparr>currentState := Num 1, isDispatching := False,
                        currentListeners := nextListeners ?s1\<rparr>) of
              None \<Rightarrow> None
            | Some (Inl e, s4) \<Rightarrow> Some (Inl e, s4)
            | Some (Inr u, s4) \<Rightarrow> Some (Inr (INC 5), s4))"
    by (rule conjunct1)
  then have "\<exists>w'. dispatch 5 (exec 5 sample) sample (INC 5) ?s = Some (Inr (INC 5), w') \<and>
         arrays w' 0 = [Fun 2] \<and> currentListeners w' = 0 \<and> nextListeners w' = 1 \<and>
         arrays w' (nextListeners w') = [Fun 2, Fun 3]"
    by (simp add: store_eval listening_world_def)
  with wf a g red t1 u1 u2 off t2 t3 show ?thesis by blast
qed

subsection \<open>Well-formed stores\<close>

text \<open>
  The store \<open>createStore\<close> returns is well-formed, and so is every world reached from a
  well-formed one by a dispatch or by anything a callback does.
\<close>

lemma callable_trans: "callable s s' \<Longrightarrow> callable s' s'' \<Longrightarrow> callable s s''"
  by (simp add: callable_def)

lemma callable_same: "currentReducer s' = currentReducer s \<Longrightarrow> callable s s'"
  by (simp add: callable_def)

lemma subscribe_reducer: "subscribe l s = (r, s') \<Longrightarrow> currentReducer s' = currentReducer s"
  by (auto simp: subscribe_def ensureCanMutateNextListeners_def push_def Let_def split: if_splits)

lemma unsubscribe_reducer: "unsubscribe u s = (r, s') \<Longrightarrow> currentReducer s' = currentReducer s"
  by (auto simp: unsubscribe_def ensureCanMutateNextListeners_def Let_def split: if_splits prod.splits)

lemma call_callable:
  assumes "keeps callable run" "call run env v args s = Some (r, s')"
  shows "callable s s'"
proof (cases v)
  case (Fun f)
  let ?s = "s\<lparr>trace := trace s @ [(v, args, isDispatching s)]\<rparr>"
  from assms(2) Fun have "run (env f args) ?s = Some (r, s')" by (simp add: call_def)
  with assms(1) have "callable ?s s'" unfolding keeps_def by blast
  then show ?thesis by (simp add: callable_def)
qed (use assms in \<open>auto simp: call_def callable_def\<close>)

lemma notify_callable:
  assumes "keeps callable run"
  shows "notify m run env ls i s = Some (r, s') \<Longrightarrow> callable s s'"
proof (induction m arbitrary: i s)
  case 0
  then show ?case by (auto split: if_splits simp: callable_def)
next
  case (Suc m)
  show ?case
  proof (cases "i < length (arrays s ls)")
    case False
    with Suc.prems show ?thesis by (auto simp: callable_def)
  next
    case True
    with Suc.prems obtain r1 s1 where c: "call run env (arrays s ls ! i) [] s = Some (r1, s1)"
      by (auto split: option.splits)
    have ok1: "callable s s1" by (rule call_callable[OF assms c])
    show ?thesis
    proof (cases r1)
      case (Inl e)
      with c True Suc.prems ok1 show ?thesis by auto
    next
      case (Inr v)
      with c True Suc.prems have n: "notify m run env ls (Suc i) s1 = Some (r, s')" by auto
      then have "callable s1 s'" by (rule Suc.IH)
      with ok1 show ?thesis by (rule callable_trans)
    qed
  qed
qed

lemma dispatch_callable:
  assumes run: "keeps callable run" and d: "dispatch m run env a s = Some (r, s')"
  shows "callable s s'"
proof (cases "isPlainObject a \<and> (\<exists>t. get_prop a ''type'' = Inr t \<and> t \<noteq> Undefined) \<and> \<not> isDispatching s")
  case False
  with d have "s' = s"
    by (auto simp: dispatch_def split: if_splits sum.splits)
  then show ?thesis by (simp add: callable_def)
next
  case True
  let ?s0 = "s\<lparr>isDispatching := True\<rparr>"
  from True d obtain r1 s1 where
    c: "call run env (currentReducer s) [currentState s, a] ?s0 = Some (r1, s1)"
    by (auto simp: dispatch_def split: option.splits)
  from call_callable[OF run c] have p1: "callable s s1" by (simp add: callable_def)
  show ?thesis
  proof (cases r1)
    case (Inl e)
    with True d c have "s' = s1\<lparr>isDispatching := False\<rparr>"
      by (auto simp: dispatch_def)
    with p1 show ?thesis by (simp add: callable_def)
  next
    case (Inr v)
    let ?s3 = "s1\<lparr>currentState := v, isDispatching := False, currentListeners := nextListeners s1\<rparr>"
    from True d c Inr obtain r4 where
      n: "notify m run env (nextListeners s1) 0 ?s3 = Some (r4, s')"
      by (auto simp: dispatch_def Let_def split: option.splits sum.splits)
    have "callable ?s3 s'" by (rule notify_callable[OF run n])
    with p1 show ?thesis by (simp add: callable_def)
  qed
qed

lemma replaceReducer_callable:
  assumes run: "keeps callable run" and d: "replaceReducer m run env nr s = Some (r, s')"
  shows "callable s s'"
proof (cases "typeof nr = ''function''")
  case False
  with d have "s' = s" by (simp add: replaceReducer_def)
  then show ?thesis by (simp add: callable_def)
next
  case True
  let ?s2 = "s\<lparr>currentReducer := nr, fresh := Suc (fresh s)\<rparr>"
  from True d obtain r1 where "dispatch m run env (INIT_action (fresh s)) ?s2 = Some (r1, s')"
    by (auto simp: replaceReducer_def Let_def split: option.splits sum.splits)
  from dispatch_callable[OF run this] True show ?thesis by (simp add: callable_def)
qed

lemma exec_callable: "keeps callable (exec n env)"
proof (induction n)
  case 0
  show ?case by (simp add: keeps_def)
next
  case (Suc n)
  then have ih: "\<And>p s r s'. exec n env p s = Some (r, s') \<Longrightarrow> callable s s'"
    by (simp add: keeps_def)
  show ?case
    unfolding keeps_def
  proof (intro allI impI)
    fix p s r s'
    assume e: "exec (Suc n) env p s = Some (r, s')"
    show "callable s s'"
    proof (cases p)
      case (Return v)
      with e show ?thesis by (auto simp: callable_def)
    next
      case (Throw x)
      with e show ?thesis by (auto simp: callable_def)
    next
      case (GetState k)
      with e ih show ?thesis by auto
    next
      case (Dispatch a k)
      with e obtain r1 s1 where d: "dispatch n (exec n env) env a s = Some (r1, s1)"
        and k: "exec n env (k r1) s1 = Some (r, s')"
        by (auto split: option.splits)
      from dispatch_callable[OF Suc d] ih[OF k] show ?thesis
        by (rule callable_trans)
    next
      case (Subscribe l k)
      with e obtain r1 s1 where d: "subscribe l s = (r1, s1)"
        and k: "exec n env (k r1) s1 = Some (r, s')"
        by (auto split: prod.splits)
      from callable_same[OF subscribe_reducer[OF d]] ih[OF k] show ?thesis
        by (rule callable_trans)
    next
      case (Unsubscribe u q)
      obtain r1 s1 where d: "unsubscribe u s = (r1, s1)" by (cases "unsubscribe u s")
      note ok = callable_same[OF unsubscribe_reducer[OF d]]
      show ?thesis
      proof (cases r1)
        case (Inl x)
        with e d Unsubscribe ok show ?thesis by auto
      next
        case (Inr v)
        with e d Unsubscribe have "exec n env q s1 = Some (r, s')" by auto
        from ok ih[OF this] show ?thesis by (rule callable_trans)
      qed
    next
      case (ReplaceReducer nr k)
      with e obtain r1 s1 where d: "replaceReducer n (exec n env) env nr s = Some (r1, s1)"
        and k: "exec n env (k r1) s1 = Some (r, s')"
        by (auto split: option.splits)
      from replaceReducer_callable[OF Suc d] ih[OF k] show ?thesis
        by (rule callable_trans)
    qed
  qed
qed

lemma well_formed_frozen: "well_formed s \<Longrightarrow> frozen (currentListeners s) s"
  by (simp add: well_formed_def frozen_def)

lemma frozen_bounds: "frozen X s \<Longrightarrow> currentListeners s < fresh s \<and> nextListeners s < fresh s"
  by (simp add: frozen_def)

lemma exec_well_formed:
  assumes "well_formed s" "exec n env p s = Some (r, s')"
  shows "well_formed s'"
proof -
  from exec_preserves[of n env] assms(2) have "preserves s s'" unfolding keeps_def by blast
  with well_formed_frozen[OF assms(1)] have "frozen (currentListeners s) s'"
    unfolding preserves_def by blast
  moreover from exec_callable[of n env] assms(2) have "callable s s'" unfolding keeps_def by blast
  ultimately show ?thesis using assms(1) by (simp add: well_formed_def frozen_def callable_def)
qed

lemma store_dispatch_well_formed:
  assumes "well_formed s" "store_dispatch n env a s = Some (r, s')"
  shows "well_formed s'"
proof -
  from assms(2) have d: "dispatch n (exec n env) env a s = Some (r, s')"
    by (simp add: store_dispatch_def)
  from dispatch_preserves[OF exec_preserves d] well_formed_frozen[OF assms(1)]
  have "frozen (currentListeners s) s'" unfolding preserves_def by blast
  moreover note dispatch_callable[OF exec_callable d]
  ultimately show ?thesis using assms(1) by (simp add: well_formed_def frozen_def callable_def)
qed

lemma createStore_well_formed:
  assumes "createStore n env h reducer P E = Some (Inr (Store w))"
  shows "well_formed w"
proof -
  let ?P = "if typeof P = ''function'' \<and> typeof E = ''undefined'' then Undefined else P"
  let ?s = "\<lparr>currentReducer = reducer, currentState = ?P,
                 currentListeners = h, nextListeners = h, isDispatching = False,
                 arrays = (\<lambda>a. []), fresh = Suc (Suc h), closures = [], trace = []\<rparr>"
  from assms have f: "typeof reducer = ''function''"
    by (auto simp: createStore_def Let_def split: if_splits)
  from assms obtain a where "store_dispatch n env (INIT_action (Suc h)) ?s = Some (Inr a, w)"
    by (auto simp: createStore_def Let_def split: if_splits option.splits sum.splits prod.splits)
  moreover have "well_formed ?s" using f by (simp add: well_formed_def)
  ultimately show ?thesis by (rule store_dispatch_well_formed[rotated])
qed

subsection \<open>subscribe and unsubscribe\<close>

lemma count_list_splice1:
  assumes "0 \<le> i" "nat i < length xs" "xs ! nat i = v"
  shows "Suc (count_list (splice1 i xs) v) = count_list xs v"
proof -
  have s: "splice1 i xs = take (nat i) xs @ drop (Suc (nat i)) xs"
  proof -
    from assms(1,2) have "i \<le> int (length xs)" by linarith
    with assms(1) show ?thesis by (simp add: splice1_def Let_def min_def)
  qed
  have "xs = take (nat i) xs @ xs ! nat i # drop (Suc (nat i)) xs"
    using assms(2) by (simp add: id_take_nth_drop[symmetric])
  then have "count_list xs v = count_list (take (nat i) xs @ v # drop (Suc (nat i)) xs) v"
    using assms(3) by simp
  with s show ?thesis by simp
qed

lemma next_after_ensure:
  "arrays (ensureCanMutateNextListeners s) (nextListeners (ensureCanMutateNextListeners s))
     = arrays s (nextListeners s)"
  by (simp add: ensureCanMutateNextListeners_def)

lemma subscribe_registered:
  "subscribe (Fun f) s = (r, s') \<Longrightarrow>
     r = Inr (length (closures s)) \<and> closures s' = closures s @ [(Fun f, True)] \<and>
     arrays s' (nextListeners s') = arrays s (nextListeners s) @ [Fun f]"
  by (auto simp: subscribe_def ensureCanMutateNextListeners_def push_def Let_def)

lemma unsubscribe_inactive:
  "u < length (closures s) \<Longrightarrow> closures s ! u = (l, False) \<Longrightarrow>
     unsubscribe u s = (Inr Undefined, s)"
  by (simp add: unsubscribe_def)

lemma unsubscribe_active:
  assumes "u < length (closures s)" "closures s ! u = (Fun f, True)"
    "Fun f \<in> set (arrays s (nextListeners s))" "unsubscribe u s = (r, s')"
  shows "r = Inr Undefined \<and> closures s' = (closures s)[u := (Fun f, False)] \<and>
         Suc (registered (Fun f) s') = registered (Fun f) s"
proof -
  let ?xs = "arrays s (nextListeners s)"
  have arr: "arrays s' (nextListeners s') = splice1 (indexOf ?xs (Fun f)) ?xs"
    and rest: "r = Inr Undefined" "closures s' = (closures s)[u := (Fun f, False)]"
    using assms(1,2,4)
    by (auto simp: unsubscribe_def ensureCanMutateNextListeners_def Let_def)
  from indexOf_Fun[OF assms(3)] have
    "Suc (count_list (splice1 (indexOf ?xs (Fun f)) ?xs) (Fun f)) = count_list ?xs (Fun f)"
    by (intro count_list_splice1) auto
  with arr rest show ?thesis by (simp add: registered_def)
qed

text \<open>
  Claim C9.  Subscribing the function \<open>f\<close> twice gives two different \<open>unsubscribe\<close>
  closures and registers \<open>f\<close> two more times.  Calling either closure once leaves \<open>f\<close>
  registered one time fewer, that is once more than before the two subscriptions (once,
  when it was not registered before); calling the same closure again returns and leaves
  the whole world as it is.
\<close>

theorem subscribe_twice_unsubscribe_once:
  assumes s1: "subscribe (Fun f) s = (r1, s1)" and s2: "subscribe (Fun f) s1 = (r2, s2)"
  shows "\<exists>u1 u2. r1 = Inr u1 \<and> r2 = Inr u2 \<and> u1 \<noteq> u2 \<and>
           registered (Fun f) s2 = registered (Fun f) s + 2 \<and>
           (\<forall>u \<in> {u1, u2}. \<exists>s3.
              unsubscribe u s2 = (Inr Undefined, s3) \<and>
              registered (Fun f) s3 = registered (Fun f) s + 1 \<and>
              unsubscribe u s3 = (Inr Undefined, s3))"
proof -
  let ?n = "length (closures s)"
  note a = subscribe_registered[OF s1] and b = subscribe_registered[OF s2]
  have cl: "closures s2 = closures s @ [(Fun f, True), (Fun f, True)]"
    using a b by simp
  have reg2: "registered (Fun f) s2 = registered (Fun f) s + 2"
    using a b by (simp add: registered_def)
  have mem: "Fun f \<in> set (arrays s2 (nextListeners s2))" using b by simp
  have once: "\<exists>s3. unsubscribe u s2 = (Inr Undefined, s3) \<and>
              registered (Fun f) s3 = registered (Fun f) s + 1 \<and>
              unsubscribe u s3 = (Inr Undefined, s3)" if u: "u = ?n \<or> u = Suc ?n" for u
  proof -
    obtain r3 s3 where un: "unsubscribe u s2 = (r3, s3)" by (cases "unsubscribe u s2")
    have len: "u < length (closures s2)" using u cl by auto
    have act: "closures s2 ! u = (Fun f, True)" using u cl by (auto simp: nth_append)
    note c = unsubscribe_active[OF len act mem un]
    have "closures s3 ! u = (Fun f, False)" "u < length (closures s3)"
      using c len by simp_all
    then have "unsubscribe u s3 = (Inr Undefined, s3)"
      by (simp add: unsubscribe_inactive)
    with c un reg2 show ?thesis by simp
  qed
  show ?thesis
    using a b reg2 once by auto
qed

theorem subscribe_twice_unsubscribe_once_witness:
  "subscribe (Fun 1) idle_world =
     (Inr 0, idle_world\<lparr>nextListeners := 1, arrays := (arrays idle_world)(1 := [Fun 1]),
                fresh := 2, closures := [(Fun 1, True)]\<rparr>) \<and>
   subscribe (Fun 1) (idle_world\<lparr>nextListeners := 1, arrays := (arrays idle_world)(1 := [Fun 1]),
                fresh := 2, closures := [(Fun 1, True)]\<rparr>) =
     (Inr 1, idle_world\<lparr>nextListeners := 1, arrays := (arrays idle_world)(1 := [Fun 1, Fun 1]),
                fresh := 2, closures := [(Fun 1, True), (Fun 1, True)]\<rparr>) \<and>
   registered (Fun 1) idle_world = 0 \<and>
   (\<exists>s3. unsubscribe 0 (idle_world\<lparr>nextListeners := 1,
                arrays := (arrays idle_world)(1 := [Fun 1, Fun 1]),
                fresh := 2, closures := [(Fun 1, True), (Fun 1, True)]\<rparr>) = (Inr Undefined, s3) \<and>
         registered (Fun 1) s3 = 1 \<and> unsubscribe 0 s3 = (Inr Undefined, s3)) \<and>
   (\<exists>s3. unsubscribe 1 (idle_world\<lparr>nextListeners := 1,
                arrays := (arrays idle_world)(1 := [Fun 1, Fun 1]),
                fresh := 2, closures := [(Fun 1, True), (Fun 1, True)]\<rparr>) = (Inr Undefined, s3) \<and>
         registered (Fun 1) s3 = 1 \<and> unsubscribe 1 s3 = (Inr Undefined, s3))"
proof -
  let ?s1 = "idle_world\<lparr>nextListeners := 1, arrays := (arrays idle_world)(1 := [Fun 1]),
                fresh := 2, closures := [(Fun 1, True)]\<rparr>"
  let ?s2 = "idle_world\<lparr>nextListeners := 1, arrays := (arrays idle_world)(1 := [Fun 1, Fun 1]),
                fresh := 2, closures := [(Fun 1, True), (Fun 1, True)]\<rparr>"
  have h1: "subscribe (Fun 1) idle_world = (Inr 0, ?s1)"
    by (simp add: subscribe_def ensureCanMutateNextListeners_def push_def idle_world_def)
  have h2: "subscribe (Fun 1) ?s1 = (Inr 1, ?s2)"
    by (simp add: subscribe_def ensureCanMutateNextListeners_def push_def idle_world_def)
  have r0: "registered (Fun 1) idle_world = 0"
    by (simp add: registered_def idle_world_def)
  from subscribe_twice_unsubscribe_once[OF h1 h2] r0
  have "\<forall>u \<in> {0, 1}. \<exists>s3. unsubscribe u ?s2 = (Inr Undefined, s3) \<and>
          registered (Fun 1) s3 = 1 \<and> unsubscribe u s3 = (Inr Undefined, s3)"
    by simp
  with h1 h2 r0 show ?thesis by blast
qed

subsection \<open>Construction\<close>

lemma createStore_pure:
  assumes "env r [P, INIT_action (Suc h)] = Return v" "typeof P \<noteq> ''function''"
  shows "createStore (Suc n) env h (Fun r) P Undefined =
     Some (Inr (Store \<lparr>currentReducer = Fun r, currentState = v,
                 currentListeners = h, nextListeners = h, isDispatching = False,
                 arrays = (\<lambda>a. []), fresh = Suc (Suc h), closures = [],
                 trace = [(Fun r, [P, INIT_action (Suc h)], True)]\<rparr>))"
  using assms
  by (simp add: createStore_def store_dispatch_def dispatch_def call_def INIT_action_def lookup_def
        ActionTypes_INIT_def)

text \<open>
  Claim C1.  With a function as reducer, a preloaded state that is not itself taken for
  the enhancer (it is not a function) and no enhancer, \<open>createStore\<close> returns a store
  whose trace holds exactly one call, that of the reducer with the preloaded state and
  the action \<open>{ type: '@@redux/INIT' }\<close>, and whose state is what that call returned;
  no listener is registered and the guard is clear.  And the counter of the scenario,
  created without preloaded state, holds \<open>3\<close> after three dispatches of \<open>{ type: 'INC' }\<close>.
\<close>

theorem createStore_dispatches_INIT_once:
  "(env r [P, INIT_action (Suc h)] = Return v \<and> typeof P \<noteq> ''function'' \<longrightarrow>
      (\<exists>w. createStore (Suc n) env h (Fun r) P Undefined = Some (Inr (Store w)) \<and>
           getState w = v \<and>
           trace w = [(Fun r, [P, INIT_action (Suc h)], True)] \<and>
           currentReducer w = Fun r \<and> \<not> isDispatching w \<and>
           arrays w (currentListeners w) = [] \<and> arrays w (nextListeners w) = [])) \<and>
   (case createStore 1 counter 0 (Fun 0) Undefined Undefined of
      Some (Inr (Store w)) \<Rightarrow>
        map_option getState (dispatch_all 1 counter [INC 2, INC 3, INC 4] w)
    | _ \<Rightarrow> None) = Some (Num 3)"
proof (intro conjI impI)
  assume "env r [P, INIT_action (Suc h)] = Return v \<and> typeof P \<noteq> ''function''"
  then show "\<exists>w. createStore (Suc n) env h (Fun r) P Undefined = Some (Inr (Store w)) \<and>
           getState w = v \<and>
           trace w = [(Fun r, [P, INIT_action (Suc h)], True)] \<and>
           currentReducer w = Fun r \<and> \<not> isDispatching w \<and>
           arrays w (currentListeners w) = [] \<and> arrays w (nextListeners w) = []"
    by (simp add: createStore_pure getState_def)
next
  show "(case createStore 1 counter 0 (Fun 0) Undefined Undefined of
      Some (Inr (Store w)) \<Rightarrow>
        map_option getState (dispatch_all 1 counter [INC 2, INC 3, INC 4] w)
    | _ \<Rightarrow> None) = Some (Num 3)"
    by (simp add: createStore_def store_dispatch_def dispatch_def call_def INIT_action_def
          lookup_def ActionTypes_INIT_def counter_def arg_def INC_def getState_def)
qed

theorem createStore_dispatches_INIT_once_witness:
  "counter 0 [Undefined, INIT_action (Suc 0)] = Return (Num 0) \<and>
   typeof Undefined \<noteq> ''function'' \<and>
   (\<exists>w. createStore (Suc 0) counter 0 (Fun 0) Undefined Undefined = Some (Inr (Store w)) \<and>
        getState w = Num 0 \<and> trace w = [(Fun 0, [Undefined, INIT_action (Suc 0)], True)])"
proof -
  have h: "counter 0 [Undefined, INIT_action (Suc 0)] = Return (Num 0) \<and>
           typeof Undefined \<noteq> ''function''"
    by (simp add: counter_def arg_def INIT_action_def lookup_def ActionTypes_INIT_def)
  from createStore_dispatches_INIT_once
         [where env = counter and r = 0 and P = Undefined and h = 0 and v = "Num 0" and n = 0,
          THEN conjunct1, THEN mp, OF h]
  have "\<exists>w. createStore (Suc 0) counter 0 (Fun 0) Undefined Undefined = Some (Inr (Store w)) \<and>
        getState w = Num 0 \<and> trace w = [(Fun 0, [Undefined, INIT_action (Suc 0)], True)]"
    by blast
  with h show ?thesis by blast
qed

text \<open>
  A function as second argument, with no third one, is the enhancer: the construction is
  handed to it and this call of \<open>createStore\<close> dispatches nothing.
\<close>

lemma createStore_function_as_second_argument:
  "createStore n env h reducer (Fun g) Undefined = Some (Inr (Delegated (Fun g) reducer Undefined))"
  by (simp add: createStore_def)

subsection \<open>getState\<close>




section \<open>combineReducers\<close>

subsection \<open>The loop of the combination\<close>

lemma set_prop_fresh: "k \<notin> fst ` set fs \<Longrightarrow> set_prop fs k v = fs @ [(k, v)]"
  by (induction fs) auto

lemma set_prop_keys:
  "map fst (set_prop fs k v) = (if k \<in> set (map fst fs) then map fst fs else map fst fs @ [k])"
  by (induction fs) (auto split: if_splits)

lemma lookup_set_prop: "lookup (set_prop fs k v) k' = (if k' = k then v else lookup fs k')"
  by (induction fs) (auto simp: lookup_def)

lemma fold_assign:
  "distinct ks \<Longrightarrow> ''__proto__'' \<notin> set ks \<Longrightarrow> set ks \<inter> fst ` set ns = {} \<Longrightarrow>
     fold (\<lambda>k acc. assign acc k (g k)) ks ns = ns @ map (\<lambda>k. (k, g k)) ks"
proof (induction ks arbitrary: ns)
  case Nil
  then show ?case by simp
next
  case (Cons k ks)
  from Cons.prems have k: "k \<notin> fst ` set ns" and p: "k \<noteq> ''__proto__''" by auto
  have "set ks \<inter> fst ` set (ns @ [(k, g k)]) = {}"
    using Cons.prems by auto
  with Cons.prems Cons.IH[of "ns @ [(k, g k)]"] k p show ?case
    by (simp add: set_prop_fresh assign_def)
qed

lemma combine_from_Inr:
  "combine_from rt env final ks state action hc ns = Inr (hc', ns') \<longleftrightarrow>
     (\<forall>k \<in> set ks. part_kept rt env final state action k \<or> part_new rt env final state action k) \<and>
     hc' = (hc \<or> (\<exists>k \<in> set ks. part_new rt env final state action k)) \<and>
     ns' = fold (\<lambda>k acc. assign acc k (the_part rt env final state action k)) ks ns"
proof (induction ks arbitrary: hc ns)
  case Nil
  show ?case by auto
next
  case (Cons k ks)
  show ?case
  proof (cases "property rt state k")
    case (Inl e)
    then show ?thesis by (simp add: part_kept_def part_new_def)
  next
    case prior: (Inr prior)
    show ?thesis
    proof (cases "call_reducer env (lookup final k) prior action")
      case (Inl e)
      with prior show ?thesis by (simp add: part_kept_def part_new_def nextPart_def)
    next
      case (Inr v)
      show ?thesis
      proof (cases "v = Undefined")
        case True
        with prior Inr show ?thesis
          by (simp add: part_kept_def part_new_def nextPart_def split: sum.splits)
      next
        case False
        have kept: "part_kept rt env final state action k \<longleftrightarrow> strict_eq v prior"
          and new: "part_new rt env final state action k \<longleftrightarrow> \<not> strict_eq v prior"
          and part: "the_part rt env final state action k = v"
          using prior Inr False by (simp_all add: part_kept_def part_new_def nextPart_def the_part_def)
        have step: "combine_from rt env final (k # ks) state action hc ns =
              combine_from rt env final ks state action (hc \<or> \<not> strict_eq v prior) (assign ns k v)"
          using prior Inr False by simp
        have "combine_from rt env final (k # ks) state action hc ns = Inr (hc', ns') \<longleftrightarrow>
           (\<forall>k \<in> set ks. part_kept rt env final state action k \<or> part_new rt env final state action k) \<and>
           hc' = ((hc \<or> \<not> strict_eq v prior) \<or> (\<exists>k \<in> set ks. part_new rt env final state action k)) \<and>
           ns' = fold (\<lambda>k acc. assign acc k (the_part rt env final state action k)) ks (assign ns k v)"
          by (simp only: step Cons.IH)
        also have "\<dots> \<longleftrightarrow>
           (\<forall>k \<in> set (k # ks). part_kept rt env final state action k \<or> part_new rt env final state action k) \<and>
           hc' = (hc \<or> (\<exists>k \<in> set (k # ks). part_new rt env final state action k)) \<and>
           ns' = fold (\<lambda>k acc. assign acc k (the_part rt env final state action k)) (k # ks) ns"
          using kept new part by auto
        finally show ?thesis .
      qed
    qed
  qed
qed


lemma assign_keys:
  "map fst (assign fs k v) =
     (if k = ''__proto__'' \<or> k \<in> set (map fst fs) then map fst fs else map fst fs @ [k])"
  by (simp add: assign_def set_prop_keys)

lemma lookup_assign:
  "lookup (assign fs k v) k' = (if k' = k \<and> k \<noteq> ''__proto__'' then v else lookup fs k')"
  by (simp add: assign_def lookup_set_prop)

lemma collect_keys:
  "distinct (map fst fin) \<Longrightarrow> distinct (map fst (fst (collect rt rs ks (fin, out))))"
  by (induction ks arbitrary: fin out) (auto simp: assign_keys)

lemma collect_no_proto:
  "''__proto__'' \<notin> set (map fst fin) \<Longrightarrow>
     ''__proto__'' \<notin> set (map fst (fst (collect rt rs ks (fin, out))))"
proof (induction ks arbitrary: fin out)
  case Nil
  then show ?case by simp
next
  case (Cons k ks)
  have "''__proto__'' \<notin> set (map fst (assign fin k (lookup rs k)))"
    using Cons.prems by (auto simp: assign_keys)
  with Cons.prems Cons.IH show ?case by simp
qed

lemma collect_functions:
  "\<forall>k \<in> set (map fst fin). \<exists>f. lookup fin k = Fun f \<Longrightarrow>
   \<forall>k \<in> set (map fst (fst (collect rt rs ks (fin, out)))).
      \<exists>f. lookup (fst (collect rt rs ks (fin, out))) k = Fun f"
proof (induction ks arbitrary: fin out)
  case Nil
  then show ?case by simp
next
  case (Cons k ks)
  show ?case
  proof (cases "typeof (lookup rs k) = ''function''")
    case False
    with Cons show ?thesis by simp
  next
    case True
    have "\<forall>k' \<in> set (map fst (assign fin k (lookup rs k))).
            \<exists>f. lookup (assign fin k (lookup rs k)) k' = Fun f"
      using True Cons.prems by (auto simp: assign_keys lookup_assign split: if_splits)
    from Cons.IH[OF this] True show ?thesis by simp
  qed
qed

lemma collect_filter:
  "distinct (map fst fin @ ks) \<Longrightarrow>
     map fst (fst (collect rt rs ks (fin, out))) =
       map fst fin @ filter (\<lambda>k. typeof (lookup rs k) = ''function'' \<and> k \<noteq> ''__proto__'') ks"
proof (induction ks arbitrary: fin out)
  case Nil
  then show ?case by simp
next
  case (Cons k ks)
  from Cons.prems have k: "k \<notin> set (map fst fin)" by auto
  show ?case
  proof (cases "typeof (lookup rs k) = ''function'' \<and> k \<noteq> ''__proto__''")
    case True
    with k have keys: "map fst (assign fin k (lookup rs k)) = map fst fin @ [k]"
      by (simp add: assign_keys)
    with Cons.prems have "distinct (map fst (assign fin k (lookup rs k)) @ ks)" by auto
    from Cons.IH[OF this] keys True show ?thesis by simp
  next
    case False
    have same: "map fst (if typeof (lookup rs k) = ''function''
                      then assign fin k (lookup rs k) else fin) = map fst fin"
      using False by (auto simp: assign_keys)
    from Cons.prems have "distinct (map fst (if typeof (lookup rs k) = ''function''
                      then assign fin k (lookup rs k) else fin) @ ks)"
      by (simp only: same) auto
    from Cons.IH[OF this] same False show ?thesis by auto
  qed
qed

lemma combineReducers_final:
  assumes "c = combineReducers rt env rnd h reducers"
  shows "distinct (finalReducerKeys c)"
    and "finalReducerKeys c = map fst (finalReducers c)"
    and "\<forall>k \<in> set (finalReducerKeys c). \<exists>f. lookup (finalReducers c) k = Fun f"
    and "''__proto__'' \<notin> set (finalReducerKeys c)"
  using assms collect_keys[of "[]" rt reducers "object_keys reducers" "[]"]
    collect_functions[of "[]" rt reducers "object_keys reducers" "[]"]
    collect_no_proto[of "[]" rt reducers "object_keys reducers" "[]"]
  by (simp_all add: combineReducers_def Let_def object_keys_def split_def)

lemma combineReducers_keys:
  assumes "c = combineReducers rt env rnd h reducers" and "distinct (object_keys reducers)"
  shows "finalReducerKeys c =
           filter (\<lambda>k. typeof (lookup reducers k) = ''function'' \<and> k \<noteq> ''__proto__'')
             (object_keys reducers)"
  using assms collect_filter[of "[]" "object_keys reducers" rt reducers "[]"]
  by (simp add: combineReducers_def Let_def object_keys_def split_def)

lemma combination_stored_error:
  "shapeAssertionError c = Some e \<Longrightarrow> combination rt env c h S X = (Inl e, c)"
  by (simp add: combination_def)

lemma combination_diagnostic_throws:
  assumes "shapeAssertionError c = None"
    and "state = (if S = Undefined then Obj h [] else S)"
    and "\<not> diagnostic_returns rt env c state X"
  shows "\<exists>e. combination rt env c h S X = (Inl e, c)"
  using assms
  by (cases "S = Undefined")
     (auto simp: combination_def diagnostic_returns_def Let_def split: sum.splits)

lemma combination_loop:
  assumes "shapeAssertionError c = None"
    and "state = (if S = Undefined then Obj h [] else S)"
    and "diagnostic_returns rt env c state X"
  shows "fst (combination rt env c h S X) =
           (case combine_from rt env (finalReducers c) (finalReducerKeys c) state X False [] of
              Inl e \<Rightarrow> Inl e
            | Inr (hasChanged, nextState) \<Rightarrow>
                Inr (if hasChanged then Obj (if S = Undefined then Suc h else h) nextState
                     else state))"
  using assms
  by (cases "S = Undefined")
     (auto simp: combination_def diagnostic_returns_def Let_def split: sum.splits prod.splits)

lemma combination_closure:
  "\<exists>u w. snd (combination rt env c h S X) = c\<lparr>unexpectedKeyCache := u, warnings := w\<rparr>"
proof -
  let ?state = "if S = Undefined then Obj h [] else S"
  let ?d = "getUnexpectedStateShapeWarningMessage rt env ?state (finalReducers c) X
              (unexpectedKeyCache c)"
  have same: "c = c\<lparr>unexpectedKeyCache := unexpectedKeyCache c, warnings := warnings c\<rparr>"
    by simp
  have unchanged: "snd (combination rt env c h S X) = c \<Longrightarrow> ?thesis"
    using same by metis
  show ?thesis
  proof (cases "shapeAssertionError c")
    case (Some e)
    then show ?thesis by (intro unchanged) (simp add: combination_def)
  next
    case None
    show ?thesis
    proof (cases "production rt")
      case True
      with None show ?thesis
        by (intro unchanged) (simp add: combination_def Let_def split: sum.splits prod.splits)
    next
      case False
      show ?thesis
      proof (cases ?d)
        case (Inl e)
        with None False show ?thesis
          by (intro unchanged) (simp add: combination_def Let_def)
      next
        case (Inr p)
        obtain m b where p: "p = (m, b)" by (cases p)
        from None False Inr p have "snd (combination rt env c h S X) =
            c\<lparr>unexpectedKeyCache := b,
              warnings := (case m of None \<Rightarrow> warnings c
                           | Some message \<Rightarrow> warning message (warnings c))\<rparr>"
          by (simp add: combination_def Let_def split: sum.splits prod.splits)
        then show ?thesis by blast
      qed
    qed
  qed
qed

lemma combination_result:
  assumes c0: "c0 = combineReducers rt0 env rnd h0 reducers"
    and c: "c = c0\<lparr>unexpectedKeyCache := u, warnings := w\<rparr>"
    and st: "state = (if S = Undefined then Obj h [] else S)"
  shows "fst (combination rt env c h S X) = Inr res \<longleftrightarrow>
     shapeAssertionError c = None \<and> diagnostic_returns rt env c state X \<and>
     (\<forall>k \<in> set (finalReducerKeys c).
         part_kept rt env (finalReducers c) state X k \<or> part_new rt env (finalReducers c) state X k) \<and>
     res = (if \<exists>k \<in> set (finalReducerKeys c). part_new rt env (finalReducers c) state X k
            then Obj (if S = Undefined then Suc h else h)
                   (map (\<lambda>k. (k, the_part rt env (finalReducers c) state X k)) (finalReducerKeys c))
            else state)"
proof (cases "shapeAssertionError c")
  case (Some e)
  then show ?thesis by (simp add: combination_stored_error)
next
  case None
  show ?thesis
  proof (cases "diagnostic_returns rt env c state X")
    case False
    from combination_diagnostic_throws[OF None st False] False show ?thesis by auto
  next
    case True
    let ?loop = "combine_from rt env (finalReducers c) (finalReducerKeys c) state X False []"
    have fin: "distinct (finalReducerKeys c)" "''__proto__'' \<notin> set (finalReducerKeys c)"
      using combineReducers_final(1,4)[OF c0] c by simp_all
    have fold: "fold (\<lambda>k acc. assign acc k (the_part rt env (finalReducers c) state X k))
                  (finalReducerKeys c) []
                = map (\<lambda>k. (k, the_part rt env (finalReducers c) state X k)) (finalReducerKeys c)"
      using fold_assign[OF fin, of "[]"] by simp
    note comb = combination_loop[OF None st True]
    show ?thesis
    proof (cases ?loop)
      case (Inl e)
      have "\<not> (\<forall>k \<in> set (finalReducerKeys c).
           part_kept rt env (finalReducers c) state X k \<or> part_new rt env (finalReducers c) state X k)"
      proof
        assume "\<forall>k \<in> set (finalReducerKeys c).
           part_kept rt env (finalReducers c) state X k \<or> part_new rt env (finalReducers c) state X k"
        then have "?loop =
            Inr (False \<or> (\<exists>k \<in> set (finalReducerKeys c). part_new rt env (finalReducers c) state X k),
                 fold (\<lambda>k acc. assign acc k (the_part rt env (finalReducers c) state X k))
                   (finalReducerKeys c) [])"
          by (simp only: combine_from_Inr)
        with Inl show False by simp
      qed
      with Inl comb show ?thesis by simp
    next
      case (Inr p)
      obtain hc ns where p: "p = (hc, ns)" by (cases p)
      from Inr[unfolded p combine_from_Inr] fold
      have all: "\<forall>k \<in> set (finalReducerKeys c).
           part_kept rt env (finalReducers c) state X k \<or> part_new rt env (finalReducers c) state X k"
        and hc: "hc = (\<exists>k \<in> set (finalReducerKeys c). part_new rt env (finalReducers c) state X k)"
        and ns: "ns = map (\<lambda>k. (k, the_part rt env (finalReducers c) state X k)) (finalReducerKeys c)"
        by simp_all
      from comb Inr p have "fst (combination rt env c h S X) =
          Inr (if hc then Obj (if S = Undefined then Suc h else h) ns else state)"
        by simp
      with None True all hc ns show ?thesis by auto
    qed
  qed
qed

lemma part_kept_not_new:
  "part_kept rt env final state X k \<Longrightarrow> \<not> part_new rt env final state X k"
  by (auto simp: part_kept_def part_new_def split: sum.splits)

lemma fresh_record:
  assumes "state = (if S = Undefined then Obj h [] else S)" and "older h S"
  shows "\<not> strict_eq (Obj (if S = Undefined then Suc h else h) fs) state"
    and "older h v \<Longrightarrow> \<not> strict_eq (Obj (if S = Undefined then Suc h else h) fs) v"
proof -
  show "\<not> strict_eq (Obj (if S = Undefined then Suc h else h) fs) state"
    using assms by (cases S) auto
  show "older h v \<Longrightarrow> \<not> strict_eq (Obj (if S = Undefined then Suc h else h) fs) v"
    by (cases v) auto
qed

lemma property_truthy: "truthy v \<Longrightarrow> \<exists>t. property rt v k = Inr t"
  by (cases v) simp_all

lemma filter_keys_plain:
  assumes "map_of final ''hasOwnProperty'' = None"
  shows "\<exists>r. filter_keys (is_unexpected rt env final (Some seen)) ks = Inr r"
  using assms by (induction ks) (auto simp: is_unexpected_def split: sum.splits)

lemma diagnostic_returns_plain:
  assumes "''hasOwnProperty'' \<notin> set (map fst (finalReducers c))"
    and "unexpectedKeyCache c = Some seen"
    and "isPlainObject state \<or> finalReducers c = []"
  shows "diagnostic_returns rt env c state X"
proof -
  from assms(1) have none: "map_of (finalReducers c) ''hasOwnProperty'' = None"
    by (simp add: map_of_eq_None_iff)
  obtain r where r: "filter_keys (is_unexpected rt env (finalReducers c) (Some seen))
                        (own_keys state) = Inr r"
    using filter_keys_plain[OF none] by blast
  show ?thesis
  proof (cases "truthy X")
    case False
    with r assms(2,3) show ?thesis
      by (auto simp: diagnostic_returns_def getUnexpectedStateShapeWarningMessage_def Let_def
            object_keys_def)
  next
    case True
    from property_truthy[OF this] obtain t where "property rt X ''type'' = Inr t" by blast
    with True r assms(2,3) show ?thesis
      by (auto simp: diagnostic_returns_def getUnexpectedStateShapeWarningMessage_def Let_def
            object_keys_def)
  qed
qed

lemmas combine_eval = combineReducers_def assertReducerShape_def combination_def
  object_keys_def lookup_def call_reducer_def sample_reducers_def no_random_def NOOP_def INC_def
  INIT_action_def probe_action_def ActionTypes_INIT_def nextPart_def part_kept_def part_new_def
  the_part_def Let_def read_literal_def assign_def action_type_def sample_runtime_def
  getUnexpectedStateShapeWarningMessage_def is_unexpected_def warning_def diagnostic_returns_def

text \<open>
  Claim C6, as the code has it.  Take the closure that \<open>combineReducers\<close> returned, with
  whatever earlier calls left in the cache of reported keys and in the output, and let
  the shape assertion have passed.  Let \<open>state\<close> be the whole-state value \<open>S\<close>, or the
  empty record the default parameter allocates at the unused address \<open>h\<close> when \<open>S\<close> is
  \<open>undefined\<close>; \<open>S\<close> was allocated before \<open>h\<close>.  Let the diagnostic of the state's shape
  return, which it does in a production build, and outside production when no
  surviving key is \<open>hasOwnProperty\<close> and the state is a plain object.  If every
  surviving sub-reducer keeps its part \<open>state[key]\<close>, own or inherited, the combined
  reducer returns \<open>state\<close> itself.  If every surviving sub-reducer returns a value other
  than \<open>undefined\<close> and at least one part is new, it returns a record at the unused
  address, which is \<open>===\<close> neither to \<open>state\<close> nor to any value allocated before, and
  which maps exactly the surviving keys, in their order, to the computed parts.  The
  call changes nothing of the closure but the cache and the output.
\<close>

theorem combination_referential_stability:
  assumes c0: "c0 = combineReducers rt0 env rnd h0 reducers"
    and c: "c = c0\<lparr>unexpectedKeyCache := u, warnings := w\<rparr>"
    and ok: "shapeAssertionError c = None"
    and st: "state = (if S = Undefined then Obj h [] else S)"
    and old: "older h S"
  shows "(diagnostic_returns rt env c state X \<and>
          (\<forall>k \<in> set (finalReducerKeys c). part_kept rt env (finalReducers c) state X k) \<longrightarrow>
            fst (combination rt env c h S X) = Inr state) \<and>
         (diagnostic_returns rt env c state X \<and>
          (\<forall>k \<in> set (finalReducerKeys c).
              part_kept rt env (finalReducers c) state X k \<or> part_new rt env (finalReducers c) state X k) \<and>
          (\<exists>k \<in> set (finalReducerKeys c). part_new rt env (finalReducers c) state X k) \<longrightarrow>
            fst (combination rt env c h S X) =
              Inr (Obj (if S = Undefined then Suc h else h)
                     (map (\<lambda>k. (k, the_part rt env (finalReducers c) state X k)) (finalReducerKeys c))) \<and>
            \<not> strict_eq (Obj (if S = Undefined then Suc h else h)
                     (map (\<lambda>k. (k, the_part rt env (finalReducers c) state X k)) (finalReducerKeys c)))
                 state \<and>
            (\<forall>v. older h v \<longrightarrow>
               \<not> strict_eq (Obj (if S = Undefined then Suc h else h)
                     (map (\<lambda>k. (k, the_part rt env (finalReducers c) state X k)) (finalReducerKeys c)))
                   v)) \<and>
         (\<exists>u' w'. snd (combination rt env c h S X) = c0\<lparr>unexpectedKeyCache := u', warnings := w'\<rparr>) \<and>
         (production rt \<longrightarrow> diagnostic_returns rt env c state X) \<and>
         (''hasOwnProperty'' \<notin> set (finalReducerKeys c) \<and> u \<noteq> None \<and> isPlainObject state \<longrightarrow>
            diagnostic_returns rt env c state X) \<and>
         (\<not> diagnostic_returns rt env c state X \<longrightarrow>
            (\<exists>e. combination rt env c h S X = (Inl e, c)))"
proof -
  let ?fs = "map (\<lambda>k. (k, the_part rt env (finalReducers c) state X k)) (finalReducerKeys c)"
  let ?h1 = "if S = Undefined then Suc h else h"
  have kept: "diagnostic_returns rt env c state X \<and>
          (\<forall>k \<in> set (finalReducerKeys c). part_kept rt env (finalReducers c) state X k) \<longrightarrow>
            fst (combination rt env c h S X) = Inr state"
    using ok part_kept_not_new[of rt env "finalReducers c" state X]
    unfolding combination_result[OF c0 c st]
    by auto
  have new: "diagnostic_returns rt env c state X \<and>
          (\<forall>k \<in> set (finalReducerKeys c).
              part_kept rt env (finalReducers c) state X k \<or> part_new rt env (finalReducers c) state X k) \<and>
          (\<exists>k \<in> set (finalReducerKeys c). part_new rt env (finalReducers c) state X k) \<longrightarrow>
            fst (combination rt env c h S X) = Inr (Obj ?h1 ?fs) \<and>
            \<not> strict_eq (Obj ?h1 ?fs) state \<and>
            (\<forall>v. older h v \<longrightarrow> \<not> strict_eq (Obj ?h1 ?fs) v)"
  proof (intro impI conjI allI)
    assume "diagnostic_returns rt env c state X \<and>
          (\<forall>k \<in> set (finalReducerKeys c).
              part_kept rt env (finalReducers c) state X k \<or> part_new rt env (finalReducers c) state X k) \<and>
          (\<exists>k \<in> set (finalReducerKeys c). part_new rt env (finalReducers c) state X k)"
    with ok show "fst (combination rt env c h S X) = Inr (Obj ?h1 ?fs)"
      unfolding combination_result[OF c0 c st] by auto
  next
    show "\<not> strict_eq (Obj ?h1 ?fs) state" by (rule fresh_record(1)[OF st old])
  next
    fix v assume "older h v"
    then show "\<not> strict_eq (Obj ?h1 ?fs) v" by (rule fresh_record(2)[OF st old])
  qed
  have clo: "\<exists>u' w'. snd (combination rt env c h S X) = c0\<lparr>unexpectedKeyCache := u', warnings := w'\<rparr>"
    using combination_closure[of rt env c h S X] unfolding c by auto
  have prod: "production rt \<longrightarrow> diagnostic_returns rt env c state X"
    by (simp add: diagnostic_returns_def)
  have plain: "''hasOwnProperty'' \<notin> set (finalReducerKeys c) \<and> u \<noteq> None \<and> isPlainObject state \<longrightarrow>
            diagnostic_returns rt env c state X"
  proof
    assume h: "''hasOwnProperty'' \<notin> set (finalReducerKeys c) \<and> u \<noteq> None \<and> isPlainObject state"
    then obtain seen where seen: "unexpectedKeyCache c = Some seen" using c by auto
    have "finalReducerKeys c = map fst (finalReducers c)"
      using combineReducers_final(2)[OF c0] c by simp
    with h have "''hasOwnProperty'' \<notin> set (map fst (finalReducers c))" by simp
    from diagnostic_returns_plain[OF this seen] h show "diagnostic_returns rt env c state X"
      by blast
  qed
  have loud: "\<not> diagnostic_returns rt env c state X \<longrightarrow>
            (\<exists>e. combination rt env c h S X = (Inl e, c))"
    using combination_diagnostic_throws[OF ok st] by blast
  show ?thesis
    by (intro conjI) (fact kept new clo prod plain loud)+
qed

theorem combination_referential_stability_witness:
  "shapeAssertionError (combineReducers sample_runtime sample_reducers no_random 0
       [(''count'', Fun 0)]) = None \<and>
   finalReducerKeys (combineReducers sample_runtime sample_reducers no_random 0
       [(''count'', Fun 0)]) = [''count''] \<and>
   older 7 (Obj 1 [(''count'', Num 5)]) \<and>
   diagnostic_returns sample_runtime sample_reducers
     (combineReducers sample_runtime sample_reducers no_random 0 [(''count'', Fun 0)])
     (Obj 1 [(''count'', Num 5)]) (NOOP 9) \<and>
   part_kept sample_runtime sample_reducers
     (finalReducers (combineReducers sample_runtime sample_reducers no_random 0 [(''count'', Fun 0)]))
     (Obj 1 [(''count'', Num 5)]) (NOOP 9) ''count'' \<and>
   fst (combination sample_runtime sample_reducers
     (combineReducers sample_runtime sample_reducers no_random 0 [(''count'', Fun 0)])
     7 (Obj 1 [(''count'', Num 5)]) (NOOP 9)) = Inr (Obj 1 [(''count'', Num 5)]) \<and>
   diagnostic_returns sample_runtime sample_reducers
     (combineReducers sample_runtime sample_reducers no_random 0 [(''count'', Fun 0)])
     (Obj 1 [(''count'', Num 5)]) (INC 9) \<and>
   part_new sample_runtime sample_reducers
     (finalReducers (combineReducers sample_runtime sample_reducers no_random 0 [(''count'', Fun 0)]))
     (Obj 1 [(''count'', Num 5)]) (INC 9) ''count'' \<and>
   fst (combination sample_runtime sample_reducers
     (combineReducers sample_runtime sample_reducers no_random 0 [(''count'', Fun 0)])
     7 (Obj 1 [(''count'', Num 5)]) (INC 9)) = Inr (Obj 7 [(''count'', Num 6)]) \<and>
   \<not> strict_eq (Obj 7 [(''count'', Num 6)]) (Obj 1 [(''count'', Num 5)]) \<and>
   shapeAssertionError (combineReducers sample_runtime sample_reducers no_random 0
       [(''constructor'', Fun 4)]) = None \<and>
   finalReducerKeys (combineReducers sample_runtime sample_reducers no_random 0
       [(''constructor'', Fun 4)]) = [''constructor''] \<and>
   property sample_runtime (Obj 1 []) ''constructor'' = Inr (Fun 100) \<and>
   part_kept sample_runtime sample_reducers
     (finalReducers (combineReducers sample_runtime sample_reducers no_random 0
        [(''constructor'', Fun 4)]))
     (Obj 1 []) (NOOP 9) ''constructor'' \<and>
   fst (combination sample_runtime sample_reducers
     (combineReducers sample_runtime sample_reducers no_random 0 [(''constructor'', Fun 4)])
     7 (Obj 1 []) (NOOP 9)) = Inr (Obj 1 []) \<and>
   shapeAssertionError (combineReducers sample_runtime sample_reducers no_random 0
       [(''hasOwnProperty'', Fun 4)]) = None \<and>
   finalReducerKeys (combineReducers sample_runtime sample_reducers no_random 0
       [(''hasOwnProperty'', Fun 4)]) = [''hasOwnProperty''] \<and>
   part_kept (sample_runtime\<lparr>production := True\<rparr>) sample_reducers
     (finalReducers (combineReducers sample_runtime sample_reducers no_random 0
        [(''hasOwnProperty'', Fun 4)]))
     (Obj 1 [(''x'', Num 1), (''hasOwnProperty'', Num 5)]) (NOOP 9) ''hasOwnProperty'' \<and>
   production (sample_runtime\<lparr>production := True\<rparr>) \<and>
   fst (combination (sample_runtime\<lparr>production := True\<rparr>) sample_reducers
     (combineReducers sample_runtime sample_reducers no_random 0 [(''hasOwnProperty'', Fun 4)])
     7 (Obj 1 [(''x'', Num 1), (''hasOwnProperty'', Num 5)]) (NOOP 9))
     = Inr (Obj 1 [(''x'', Num 1), (''hasOwnProperty'', Num 5)]) \<and>
   \<not> diagnostic_returns sample_runtime sample_reducers
     (combineReducers sample_runtime sample_reducers no_random 0 [(''hasOwnProperty'', Fun 4)])
     (Obj 1 [(''x'', Num 1), (''hasOwnProperty'', Num 5)]) (NOOP 9) \<and>
   combination sample_runtime sample_reducers
     (combineReducers sample_runtime sample_reducers no_random 0 [(''hasOwnProperty'', Fun 4)])
     7 (Obj 1 [(''x'', Num 1), (''hasOwnProperty'', Num 5)]) (NOOP 9)
     = (Inl (TypeError ''Cannot read property of undefined''),
        combineReducers sample_runtime sample_reducers no_random 0 [(''hasOwnProperty'', Fun 4)])"
proof -
  let ?P = "sample_runtime\<lparr>production := True\<rparr>"
  let ?o = "combineReducers sample_runtime sample_reducers no_random 0 [(''hasOwnProperty'', Fun 4)]"
  let ?H = "Obj 1 [(''x'', Num 1), (''hasOwnProperty'', Num 5)]"
  have o: "?o = ?o\<lparr>unexpectedKeyCache := unexpectedKeyCache ?o, warnings := warnings ?o\<rparr>"
    by simp
  have oko: "shapeAssertionError ?o = None" and kso: "finalReducerKeys ?o = [''hasOwnProperty'']"
    by (simp_all add: combine_eval)
  have sth: "?H = (if ?H = Undefined then Obj 7 [] else ?H)" and oldh: "older 7 ?H"
    by simp_all
  have kepto: "part_kept ?P sample_reducers (finalReducers ?o) ?H (NOOP 9) ''hasOwnProperty''"
    and prod: "production ?P"
    and loud: "\<not> diagnostic_returns sample_runtime sample_reducers ?o ?H (NOOP 9)"
    by (simp_all add: combine_eval)
  note P = combination_referential_stability[OF refl o oko sth oldh, where rt = ?P and X = "NOOP 9"]
  from P[THEN conjunct2, THEN conjunct2, THEN conjunct2, THEN conjunct1] prod
  have qp: "diagnostic_returns ?P sample_reducers ?o ?H (NOOP 9)" by blast
  from P[THEN conjunct1] qp kepto kso
  have p: "fst (combination ?P sample_reducers ?o 7 ?H (NOOP 9)) = Inr ?H" by simp
  from combination_referential_stability[OF refl o oko sth oldh,
      where rt = sample_runtime and X = "NOOP 9",
      THEN conjunct2, THEN conjunct2, THEN conjunct2, THEN conjunct2, THEN conjunct2] loud
  obtain e where
    thrown: "combination sample_runtime sample_reducers ?o 7 ?H (NOOP 9) = (Inl e, ?o)"
    by blast
  have "fst (combination sample_runtime sample_reducers ?o 7 ?H (NOOP 9)) =
          Inl (TypeError ''Cannot read property of undefined'')"
    by (simp add: combine_eval)
  with thrown have t: "combination sample_runtime sample_reducers ?o 7 ?H (NOOP 9) =
          (Inl (TypeError ''Cannot read property of undefined''), ?o)"
    by simp
  let ?c = "combineReducers sample_runtime sample_reducers no_random 0 [(''count'', Fun 0)]"
  let ?d = "combineReducers sample_runtime sample_reducers no_random 0 [(''constructor'', Fun 4)]"
  let ?S = "Obj 1 [(''count'', Num 5)]"
  let ?E = "Obj 1 []"
  have c: "?c = ?c\<lparr>unexpectedKeyCache := unexpectedKeyCache ?c, warnings := warnings ?c\<rparr>"
    and d: "?d = ?d\<lparr>unexpectedKeyCache := unexpectedKeyCache ?d, warnings := warnings ?d\<rparr>"
    by simp_all
  have ok: "shapeAssertionError ?c = None" and ks: "finalReducerKeys ?c = [''count'']"
    and okd: "shapeAssertionError ?d = None" and ksd: "finalReducerKeys ?d = [''constructor'']"
    by (simp_all add: combine_eval)
  have st: "?S = (if ?S = Undefined then Obj 7 [] else ?S)"
    and ste: "?E = (if ?E = Undefined then Obj 7 [] else ?E)" by simp_all
  have old: "older 7 ?S" and olde: "older 7 ?E" by simp_all
  have plain: "''hasOwnProperty'' \<notin> set (finalReducerKeys ?c) \<and> unexpectedKeyCache ?c \<noteq> None \<and>
               isPlainObject ?S"
    by (simp add: combine_eval)
  from combination_referential_stability[OF refl c ok st old,
      where rt = sample_runtime and X = "NOOP 9",
      THEN conjunct2, THEN conjunct2, THEN conjunct2, THEN conjunct2, THEN conjunct1] plain
  have q1: "diagnostic_returns sample_runtime sample_reducers ?c ?S (NOOP 9)" by blast
  have q2: "diagnostic_returns sample_runtime sample_reducers ?c ?S (INC 9)"
    and q3: "diagnostic_returns sample_runtime sample_reducers ?d ?E (NOOP 9)"
    by (simp_all add: combine_eval)
  have kept: "part_kept sample_runtime sample_reducers (finalReducers ?c) ?S (NOOP 9) ''count''"
    and new: "part_new sample_runtime sample_reducers (finalReducers ?c) ?S (INC 9) ''count''"
    and part: "the_part sample_runtime sample_reducers (finalReducers ?c) ?S (INC 9) ''count'' = Num 6"
    and inh: "property sample_runtime ?E ''constructor'' = Inr (Fun 100)"
    and keptd: "part_kept sample_runtime sample_reducers (finalReducers ?d) ?E (NOOP 9) ''constructor''"
    by (simp_all add: combine_eval)
  from combination_referential_stability[OF refl c ok st old, THEN conjunct1] q1 kept ks
  have a: "fst (combination sample_runtime sample_reducers ?c 7 ?S (NOOP 9)) = Inr ?S" by simp
  from combination_referential_stability[OF refl c ok st old, THEN conjunct2, THEN conjunct1]
    q2 new ks part
  have b: "fst (combination sample_runtime sample_reducers ?c 7 ?S (INC 9)) =
             Inr (Obj 7 [(''count'', Num 6)])"
    and b': "\<not> strict_eq (Obj 7 [(''count'', Num 6)]) ?S" by simp_all
  from combination_referential_stability[OF refl d okd ste olde, THEN conjunct1] q3 keptd ksd
  have e: "fst (combination sample_runtime sample_reducers ?d 7 ?E (NOOP 9)) = Inr ?E" by simp
  show ?thesis
    by (intro conjI) (fact ok ks old q1 kept a q2 new b b' okd ksd inh keptd e oko kso kepto prod p loud t)+
qed

text \<open>
  The claim as stated fails in four ways.  Without surviving sub-reducer and with an
  undefined whole-state value the result is the empty record of the default parameter,
  not \<open>undefined\<close>.  The sub-reducer \<open>s => s\<close> fails the shape assertion, so that the
  combined reducer throws the stored error although the part \<open>1\<close> comes back as it is.
  A sub-reducer that returns the \<open>undefined\<close> part it was given makes the combined
  reducer throw.  And outside production a sub-reducer under the key \<open>hasOwnProperty\<close>
  is what the diagnostic calls for \<open>reducers.hasOwnProperty(key)\<close>, with the key as
  state and no action: the sub-reducer \<open>4\<close> passes the shape assertion and keeps its
  part \<open>5\<close>, but throws on reading \<open>type\<close> of the missing action, and so does the
  combined reducer.
\<close>

theorem combination_referential_stability_counterexample:
  "finalReducerKeys (combineReducers sample_runtime sample_reducers no_random 0 []) = [] \<and>
   fst (combination sample_runtime sample_reducers
          (combineReducers sample_runtime sample_reducers no_random 0 [])
          5 Undefined (NOOP 9)) = Inr (Obj 5 []) \<and>
   finalReducerKeys (combineReducers sample_runtime sample_reducers no_random 0 [(''a'', Fun 1)])
     = [''a''] \<and>
   property sample_runtime (Obj 1 [(''a'', Num 1)]) ''a'' = Inr (Num 1) \<and>
   nextPart sample_runtime sample_reducers
     (finalReducers (combineReducers sample_runtime sample_reducers no_random 0 [(''a'', Fun 1)]))
     (Obj 1 [(''a'', Num 1)]) (NOOP 9) ''a'' = Inr (Num 1) \<and>
   strict_eq (Num 1) (Num 1) \<and>
   fst (combination sample_runtime sample_reducers
          (combineReducers sample_runtime sample_reducers no_random 0 [(''a'', Fun 1)])
          5 (Obj 1 [(''a'', Num 1)]) (NOOP 9)) = Inl (err_initialization ''a'') \<and>
   finalReducerKeys (combineReducers sample_runtime sample_reducers no_random 0 [(''a'', Fun 3)])
     = [''a''] \<and>
   shapeAssertionError (combineReducers sample_runtime sample_reducers no_random 0 [(''a'', Fun 3)])
     = None \<and>
   property sample_runtime (Obj 1 []) ''a'' = Inr Undefined \<and>
   nextPart sample_runtime sample_reducers
     (finalReducers (combineReducers sample_runtime sample_reducers no_random 0 [(''a'', Fun 3)]))
     (Obj 1 []) (NOOP 9) ''a'' = Inr Undefined \<and>
   strict_eq Undefined Undefined \<and>
   (\<exists>m. getUndefinedStateErrorMessage sample_runtime ''a'' (NOOP 9) = Inr m \<and>
     fst (combination sample_runtime sample_reducers
          (combineReducers sample_runtime sample_reducers no_random 0 [(''a'', Fun 3)])
          5 (Obj 1 []) (NOOP 9)) = Inl (Error m)) \<and>
   finalReducerKeys (combineReducers sample_runtime sample_reducers no_random 0
       [(''hasOwnProperty'', Fun 4)]) = [''hasOwnProperty''] \<and>
   shapeAssertionError (combineReducers sample_runtime sample_reducers no_random 0
       [(''hasOwnProperty'', Fun 4)]) = None \<and>
   part_kept sample_runtime sample_reducers
     (finalReducers (combineReducers sample_runtime sample_reducers no_random 0
        [(''hasOwnProperty'', Fun 4)]))
     (Obj 1 [(''hasOwnProperty'', Num 5)]) (NOOP 9) ''hasOwnProperty'' \<and>
   fst (combination sample_runtime sample_reducers
          (combineReducers sample_runtime sample_reducers no_random 0 [(''hasOwnProperty'', Fun 4)])
          5 (Obj 1 [(''hasOwnProperty'', Num 5)]) (NOOP 9))
     = Inl (TypeError ''Cannot read property of undefined'')"
  by (simp add: combine_eval getUndefinedStateErrorMessage_def)

text \<open>
  Claim C10.  Take the closure that \<open>combineReducers\<close> returned, with whatever earlier
  calls left in the cache and in the output, and a whole-state value \<open>S\<close> allocated
  before the unused address \<open>h\<close>.  Whenever the combined reducer returns a result and
  at least one part is new, the result is a record at the unused address, not \<open>===\<close> to
  the state, whose keys are exactly the surviving keys, so that no other key, and in
  particular no other key of the input state, occurs in it; when no part is new the
  result is the input state (the empty record of the default parameter for an undefined
  input), with every key it has.  The surviving keys are the keys of the argument of
  \<open>combineReducers\<close> whose value is a function, in their order, but for \<open>__proto__\<close>.
\<close>

theorem combination_drops_extra_keys:
  assumes c0: "c0 = combineReducers rt0 env rnd h0 reducers"
    and c: "c = c0\<lparr>unexpectedKeyCache := u, warnings := w\<rparr>"
    and st: "state = (if S = Undefined then Obj h [] else S)"
    and old: "older h S"
    and res: "fst (combination rt env c h S X) = Inr res"
  shows "((\<exists>k \<in> set (finalReducerKeys c). part_new rt env (finalReducers c) state X k) \<longrightarrow>
            (\<exists>fs. res = Obj (if S = Undefined then Suc h else h) fs \<and>
                  own_keys res = finalReducerKeys c \<and>
                  (\<forall>k. k \<in> set (own_keys state) \<and> k \<notin> set (finalReducerKeys c) \<longrightarrow>
                       k \<notin> set (own_keys res)) \<and>
                  \<not> strict_eq res state)) \<and>
         ((\<forall>k \<in> set (finalReducerKeys c). \<not> part_new rt env (finalReducers c) state X k) \<longrightarrow>
            res = state \<and> own_keys res = own_keys state) \<and>
         (distinct (object_keys reducers) \<longrightarrow>
            finalReducerKeys c =
              filter (\<lambda>k. typeof (lookup reducers k) = ''function'' \<and> k \<noteq> ''__proto__'')
                (object_keys reducers))"
proof -
  let ?fs = "map (\<lambda>k. (k, the_part rt env (finalReducers c) state X k)) (finalReducerKeys c)"
  let ?h1 = "if S = Undefined then Suc h else h"
  have keys: "own_keys (Obj ?h1 ?fs) = finalReducerKeys c"
    by (simp add: object_keys_def comp_def)
  have new: "(\<exists>k \<in> set (finalReducerKeys c). part_new rt env (finalReducers c) state X k) \<longrightarrow>
            (\<exists>fs. res = Obj ?h1 fs \<and> own_keys res = finalReducerKeys c \<and>
                  (\<forall>k. k \<in> set (own_keys state) \<and> k \<notin> set (finalReducerKeys c) \<longrightarrow>
                       k \<notin> set (own_keys res)) \<and>
                  \<not> strict_eq res state)"
  proof
    assume "\<exists>k \<in> set (finalReducerKeys c). part_new rt env (finalReducers c) state X k"
    with res[unfolded combination_result[OF c0 c st]] have r: "res = Obj ?h1 ?fs" by simp
    with keys have k: "own_keys res = finalReducerKeys c" by simp
    from r fresh_record(1)[OF st old] have "\<not> strict_eq res state" by simp
    with r k show "\<exists>fs. res = Obj ?h1 fs \<and> own_keys res = finalReducerKeys c \<and>
                  (\<forall>k. k \<in> set (own_keys state) \<and> k \<notin> set (finalReducerKeys c) \<longrightarrow>
                       k \<notin> set (own_keys res)) \<and>
                  \<not> strict_eq res state"
      by auto
  qed
  have same: "(\<forall>k \<in> set (finalReducerKeys c). \<not> part_new rt env (finalReducers c) state X k) \<longrightarrow>
            res = state \<and> own_keys res = own_keys state"
    using res[unfolded combination_result[OF c0 c st]] by auto
  have surv: "distinct (object_keys reducers) \<longrightarrow>
            finalReducerKeys c =
              filter (\<lambda>k. typeof (lookup reducers k) = ''function'' \<and> k \<noteq> ''__proto__'')
                (object_keys reducers)"
    using combineReducers_keys[OF c0] c by simp
  show ?thesis
    by (intro conjI) (fact new same surv)+
qed

theorem combination_drops_extra_keys_witness:
  "older 7 (Obj 1 [(''count'', Num 5), (''extra'', Num 1)]) \<and>
   fst (combination sample_runtime sample_reducers
     (combineReducers sample_runtime sample_reducers no_random 0
        [(''count'', Fun 0), (''__proto__'', Fun 0), (''none'', Num 3)])
     7 (Obj 1 [(''count'', Num 5), (''extra'', Num 1)]) (INC 9)) = Inr (Obj 7 [(''count'', Num 6)]) \<and>
   part_new sample_runtime sample_reducers
     (finalReducers (combineReducers sample_runtime sample_reducers no_random 0
        [(''count'', Fun 0), (''__proto__'', Fun 0), (''none'', Num 3)]))
     (Obj 1 [(''count'', Num 5), (''extra'', Num 1)]) (INC 9) ''count'' \<and>
   distinct (object_keys [(''count'', Fun 0), (''__proto__'', Fun 0), (''none'', Num 3)]) \<and>
   finalReducerKeys (combineReducers sample_runtime sample_reducers no_random 0
        [(''count'', Fun 0), (''__proto__'', Fun 0), (''none'', Num 3)]) = [''count''] \<and>
   own_keys (Obj 7 [(''count'', Num 6)]) = [''count''] \<and>
   ''extra'' \<in> set (own_keys (Obj 1 [(''count'', Num 5), (''extra'', Num 1)])) \<and>
   ''extra'' \<notin> set (own_keys (Obj 7 [(''count'', Num 6)])) \<and>
   \<not> strict_eq (Obj 7 [(''count'', Num 6)]) (Obj 1 [(''count'', Num 5), (''extra'', Num 1)]) \<and>
   fst (combination sample_runtime sample_reducers
     (combineReducers sample_runtime sample_reducers no_random 0
        [(''count'', Fun 0), (''__proto__'', Fun 0), (''none'', Num 3)])
     7 (Obj 1 [(''count'', Num 5), (''extra'', Num 1)]) (NOOP 9))
     = Inr (Obj 1 [(''count'', Num 5), (''extra'', Num 1)])"
proof -
  let ?r = "[(''count'', Fun 0), (''__proto__'', Fun 0), (''none'', Num 3)]"
  let ?c = "combineReducers sample_runtime sample_reducers no_random 0 ?r"
  let ?S = "Obj 1 [(''count'', Num 5), (''extra'', Num 1)]"
  have c: "?c = ?c\<lparr>unexpectedKeyCache := unexpectedKeyCache ?c, warnings := warnings ?c\<rparr>"
    by simp
  have d: "distinct (object_keys ?r)" by (simp add: object_keys_def)
  have st: "?S = (if ?S = Undefined then Obj 7 [] else ?S)" by simp
  have old: "older 7 ?S" by simp
  have ex: "''extra'' \<in> set (own_keys ?S)" by (simp add: object_keys_def)
  have new: "part_new sample_runtime sample_reducers (finalReducers ?c) ?S (INC 9) ''count''"
    and noop: "\<not> part_new sample_runtime sample_reducers (finalReducers ?c) ?S (NOOP 9) ''count''"
    by (simp_all add: combine_eval)
  have a: "fst (combination sample_runtime sample_reducers ?c 7 ?S (INC 9)) =
             Inr (Obj 7 [(''count'', Num 6)])"
    and b0: "\<exists>res. fst (combination sample_runtime sample_reducers ?c 7 ?S (NOOP 9)) = Inr res"
    by (simp_all add: combine_eval)
  then obtain res where
    res: "fst (combination sample_runtime sample_reducers ?c 7 ?S (NOOP 9)) = Inr res" by blast
  note T = combination_drops_extra_keys[OF refl c st old]
  from T[OF a, THEN conjunct2, THEN conjunct2] d
  have ks: "finalReducerKeys ?c = [''count'']" by (simp add: object_keys_def lookup_def)
  from T[OF res, THEN conjunct2, THEN conjunct1] noop ks
  have "res = ?S" by simp
  with res have b: "fst (combination sample_runtime sample_reducers ?c 7 ?S (NOOP 9)) = Inr ?S"
    by simp
  from T[OF a, THEN conjunct1] new ks ex
  have k: "own_keys (Obj 7 [(''count'', Num 6)]) = [''count'']"
    and e: "''extra'' \<notin> set (own_keys (Obj 7 [(''count'', Num 6)]))"
    and n: "\<not> strict_eq (Obj 7 [(''count'', Num 6)]) ?S"
    by auto
  show ?thesis by (intro conjI) (fact old a new d ks k ex e n b)+
qed

subsection \<open>The shape assertion\<close>





section \<open>compose\<close>

text \<open>
  Claim C8.  \<open>compose()\<close> returns its first argument, so \<open>compose()(x)\<close> is \<open>x\<close>;
  \<open>compose(f)\<close> is \<open>f\<close>; and \<open>compose(f, g, h)\<close> applied to any arguments calls \<open>h\<close> on
  these arguments, \<open>g\<close> on the value \<open>h\<close> returned and \<open>f\<close> on the value \<open>g\<close> returned,
  and returns what \<open>f\<close> returns; an exception of \<open>h\<close> or \<open>g\<close> is the outcome and the
  outer functions are not called.  For the successor, the double and the sum applied
  to \<open>3\<close> and \<open>4\<close> this is \<open>(3 + 4) * 2 + 1 = 15\<close>.
\<close>

theorem compose_nests_right_to_left:
  "compose [] (x # xs) = Inr x \<and>
   compose [f] = f \<and>
   compose [f] [x] = f [x] \<and>
   compose [f, g, h] args =
     (case h args of
        Inl e \<Rightarrow> Inl e
      | Inr y \<Rightarrow> (case g [y] of Inl e \<Rightarrow> Inl e | Inr z \<Rightarrow> f [z])) \<and>
   compose [successor, double, sum_of_two] [Num 3, Num 4] = Inr (Num 15) \<and>
   compose [double, successor, sum_of_two] [Num 3, Num 4] = Inr (Num 16) \<and>
   compose [successor, failing, sum_of_two] [Num 3, Num 4] = Inl (Error ''boom'')"
  by (simp add: compose_def arg_def successor_def double_def sum_of_two_def failing_def
        split: sum.splits)

end
